theory Spec2Isabelle
  imports Main
begin

section \<open>Characters and strings\<close>

text \<open>
  The program (\<^verbatim>\<open>src/CodeFile.py\<close>) reads a Fortran source file with
  \<^verbatim>\<open>readlines()\<close> and works on the lines as Python 3 strings, sequences of code
  points. A string is modelled as a \<^typ>\<open>string\<close>, a list of 8-bit characters read as the
  code points below 256; code points from 256 on are outside the model. The character
  classes are those of the \<^verbatim>\<open>re\<close> module on such strings: \<^verbatim>\<open>\s\<close> and the
  whitespace of \<^verbatim>\<open>str.lstrip()\<close> are the characters 0x09 to 0x0D, 0x1C to 0x20, 0x85
  and 0xA0; \<^verbatim>\<open>\d\<close> is \<^verbatim>\<open>[0-9]\<close>; \<^verbatim>\<open>\w\<close> is the underscore and the
  alphanumeric characters, which below 256 are the ASCII letters and digits and the
  letters and numbers of Latin-1; \<^verbatim>\<open>(?i)\<close> compares the lower-case forms.
\<close>

definition newline :: char where
  "newline = CHR 0x0A"

definition tab :: char where
  "tab = CHR 0x09"

definition isspace :: "char \<Rightarrow> bool" where
  "isspace c =
     (c \<in> set [CHR 0x09, CHR 0x0A, CHR 0x0B, CHR 0x0C, CHR 0x0D,
                CHR 0x1C, CHR 0x1D, CHR 0x1E, CHR 0x1F, CHR '' '', CHR 0x85, CHR 0xA0])"

definition isdigit :: "char \<Rightarrow> bool" where
  "isdigit c = (c \<in> set ''0123456789'')"

text \<open>
  \<^verbatim>\<open>str.isalnum()\<close> below 256: beyond the ASCII letters and digits these are 0xAA,
  0xB2, 0xB3, 0xB5, 0xB9, 0xBA, 0xBC to 0xBE, 0xC0 to 0xD6, 0xD8 to 0xF6 and 0xF8 to 0xFF.
\<close>

definition isalnum :: "char \<Rightarrow> bool" where
  "isalnum c =
     (c \<in> set ''abcdefghijklmnopqrstuvwxyz'' \<or> c \<in> set ''ABCDEFGHIJKLMNOPQRSTUVWXYZ''
      \<or> isdigit c
      \<or> c \<in> set
       [CHR 0xAA, CHR 0xB2, CHR 0xB3, CHR 0xB5, CHR 0xB9, CHR 0xBA, CHR 0xBC, CHR 0xBD,
        CHR 0xBE, CHR 0xC0, CHR 0xC1, CHR 0xC2, CHR 0xC3, CHR 0xC4, CHR 0xC5, CHR 0xC6,
        CHR 0xC7, CHR 0xC8, CHR 0xC9, CHR 0xCA, CHR 0xCB, CHR 0xCC, CHR 0xCD, CHR 0xCE,
        CHR 0xCF, CHR 0xD0, CHR 0xD1, CHR 0xD2, CHR 0xD3, CHR 0xD4, CHR 0xD5, CHR 0xD6,
        CHR 0xD8, CHR 0xD9, CHR 0xDA, CHR 0xDB, CHR 0xDC, CHR 0xDD, CHR 0xDE, CHR 0xDF,
        CHR 0xE0, CHR 0xE1, CHR 0xE2, CHR 0xE3, CHR 0xE4, CHR 0xE5, CHR 0xE6, CHR 0xE7,
        CHR 0xE8, CHR 0xE9, CHR 0xEA, CHR 0xEB, CHR 0xEC, CHR 0xED, CHR 0xEE, CHR 0xEF,
        CHR 0xF0, CHR 0xF1, CHR 0xF2, CHR 0xF3, CHR 0xF4, CHR 0xF5, CHR 0xF6, CHR 0xF8,
        CHR 0xF9, CHR 0xFA, CHR 0xFB, CHR 0xFC, CHR 0xFD, CHR 0xFE, CHR 0xFF])"

definition isword :: "char \<Rightarrow> bool" where
  "isword c = (isalnum c \<or> c = CHR ''_'')"

text \<open>
  The lower-case form of a character below 256: A to Z, and 0xC0 to 0xDE but 0xD7, have
  theirs 32 places on; every other character is its own.
\<close>

definition lower :: "char \<Rightarrow> char" where
  "lower c =
     (if c \<in> set ''ABCDEFGHIJKLMNOPQRSTUVWXYZ''
         \<or> c \<in> set
       [CHR 0xC0, CHR 0xC1, CHR 0xC2, CHR 0xC3, CHR 0xC4, CHR 0xC5, CHR 0xC6, CHR 0xC7,
        CHR 0xC8, CHR 0xC9, CHR 0xCA, CHR 0xCB, CHR 0xCC, CHR 0xCD, CHR 0xCE, CHR 0xCF,
        CHR 0xD0, CHR 0xD1, CHR 0xD2, CHR 0xD3, CHR 0xD4, CHR 0xD5, CHR 0xD6, CHR 0xD8,
        CHR 0xD9, CHR 0xDA, CHR 0xDB, CHR 0xDC, CHR 0xDD, CHR 0xDE]
      then char_of (of_char c + (32::nat)) else c)"

text \<open>\<^verbatim>\<open>s.lstrip()\<close>: the string without its leading whitespace.\<close>

definition lstrip :: "string \<Rightarrow> string" where
  "lstrip s = dropWhile isspace s"

text \<open>\<^verbatim>\<open>s * n\<close> for a string and an integer: \<open>n\<close> copies, none when \<open>n\<close> is negative.\<close>

definition str_times :: "string \<Rightarrow> int \<Rightarrow> string" where
  "str_times s n = concat (replicate (nat n) s)"

text \<open>\<^verbatim>\<open>s[i]\<close> for a non-negative index: out of range raises \<^verbatim>\<open>IndexError\<close>.\<close>

datatype error = IndexError

definition index :: "string \<Rightarrow> nat \<Rightarrow> error + char" where
  "index s i = (if i < length s then Inr (s ! i) else Inl IndexError)"

section \<open>Regular expressions as Python's backtracking matcher reads them\<close>

text \<open>
  The patterns of the program are kept as syntax trees and matched by one function that
  follows the search order of \<^verbatim>\<open>re.match\<close>: a greedy repetition takes a character
  first and falls back to the rest of the pattern, a lazy one tries the rest of the
  pattern first, an optional part and an alternative are tried in order, and the first
  complete match wins. The pattern is anchored at the start of the string and need not
  consume all of it.
\<close>

datatype cclass =
    Dot            \<comment> \<open>\<^verbatim>\<open>.\<close>: any character but a newline\<close>
  | Space          \<comment> \<open>\<^verbatim>\<open>\s\<close>\<close>
  | Digit          \<comment> \<open>\<^verbatim>\<open>\d\<close>\<close>
  | WordCh         \<comment> \<open>\<^verbatim>\<open>\w\<close>\<close>
  | Lit char       \<comment> \<open>a literal character\<close>
  | LitI char      \<comment> \<open>a literal character under \<^verbatim>\<open>(?i)\<close>\<close>
  | Neg "cclass list"  \<comment> \<open>\<^verbatim>\<open>[^...]\<close>, and \<^verbatim>\<open>\S\<close> as \<open>Neg [Space]\<close>\<close>

fun cmatch :: "cclass \<Rightarrow> char \<Rightarrow> bool" where
  "cmatch Dot x = (x \<noteq> newline)"
| "cmatch Space x = isspace x"
| "cmatch Digit x = isdigit x"
| "cmatch WordCh x = isword x"
| "cmatch (Lit c) x = (x = c)"
| "cmatch (LitI c) x = (lower x = lower c)"
| "cmatch (Neg cs) x = (\<not> (\<exists>c \<in> set cs. cmatch c x))"

datatype item =
    Ch cclass                        \<comment> \<open>one character of a class\<close>
  | Rep bool cclass nat "nat option" \<comment> \<open>a class repeated: lazy?, class, least, most (\<open>None\<close>: unbounded)\<close>
  | Opt "item list"                  \<comment> \<open>\<^verbatim>\<open>(...)?\<close> without its group\<close>
  | Alt "item list" "item list"      \<comment> \<open>\<^verbatim>\<open>a|b\<close>\<close>
  | Grp nat "item list"              \<comment> \<open>capturing group number \<open>n\<close>\<close>
  | Eol                              \<comment> \<open>\<^verbatim>\<open>$\<close>: the end, or just before a final newline\<close>
  | Wb                               \<comment> \<open>\<^verbatim>\<open>\b\<close>\<close>
  | Mark nat string                  \<comment> \<open>the end of group \<open>n\<close>, which began where the text was the given string\<close>

fun weight :: "item \<Rightarrow> nat" where
  "weight (Opt a) = Suc (sum_list (map weight a))"
| "weight (Alt a b) = Suc (sum_list (map weight a) + sum_list (map weight b))"
| "weight (Grp n a) = Suc (Suc (sum_list (map weight a)))"
| "weight _ = 1"

type_synonym groups = "(nat \<times> string) list"

text \<open>
  \<open>rx r p s g\<close>: match the items \<open>r\<close> against the remaining text \<open>s\<close>, where \<open>p\<close> is
  the character just before \<open>s\<close> (for \<^verbatim>\<open>\b\<close>) and \<open>g\<close> the groups captured so far,
  the latest first.
\<close>

function rx :: "item list \<Rightarrow> char option \<Rightarrow> string \<Rightarrow> groups \<Rightarrow> groups option" where
  "rx [] p s g = Some g"
| "rx (Ch c # r) p [] g = None"
| "rx (Ch c # r) p (x # xs) g = (if cmatch c x then rx r (Some x) xs g else None)"
| "rx (Rep lazy c (Suc lo) hi # r) p [] g = None"
| "rx (Rep lazy c (Suc lo) hi # r) p (x # xs) g =
     (if cmatch c x
      then rx (Rep lazy c lo (map_option (\<lambda>h. h - 1) hi) # r) (Some x) xs g
      else None)"
| "rx (Rep lazy c 0 hi # r) p [] g = rx r p [] g"
| "rx (Rep lazy c 0 hi # r) p (x # xs) g =
     (if hi = Some 0 \<or> \<not> cmatch c x then rx r p (x # xs) g
      else if lazy then
        (case rx r p (x # xs) g of
           Some g' \<Rightarrow> Some g'
         | None \<Rightarrow> rx (Rep lazy c 0 (map_option (\<lambda>h. h - 1) hi) # r) (Some x) xs g)
      else
        (case rx (Rep lazy c 0 (map_option (\<lambda>h. h - 1) hi) # r) (Some x) xs g of
           Some g' \<Rightarrow> Some g'
         | None \<Rightarrow> rx r p (x # xs) g))"
| "rx (Opt a # r) p s g =
     (case rx (a @ r) p s g of Some g' \<Rightarrow> Some g' | None \<Rightarrow> rx r p s g)"
| "rx (Alt a b # r) p s g =
     (case rx (a @ r) p s g of Some g' \<Rightarrow> Some g' | None \<Rightarrow> rx (b @ r) p s g)"
| "rx (Grp n a # r) p s g = rx (a @ Mark n s # r) p s g"
| "rx (Mark n s0 # r) p s g = rx r p s ((n, take (length s0 - length s) s0) # g)"
| "rx (Eol # r) p s g = (if s = [] \<or> s = [newline] then rx r p s g else None)"
| "rx (Wb # r) p s g =
     (if (case p of None \<Rightarrow> False | Some x \<Rightarrow> isword x)
         \<noteq> (case s of [] \<Rightarrow> False | x # _ \<Rightarrow> isword x)
      then rx r p s g else None)"
  by pat_completeness auto
termination
  by (relation "measures [\<lambda>(r, p, s, g). sum_list (map weight r), \<lambda>(r, p, s, g). length s]")
    auto

text \<open>\<^verbatim>\<open>re.match(pattern, s)\<close>: \<open>None\<close> when there is no match, the groups otherwise.\<close>

definition re_match :: "item list \<Rightarrow> string \<Rightarrow> groups option" where
  "re_match r s = rx r None s []"

text \<open>
  \<^verbatim>\<open>match.group(n)\<close>. Every group the program reads stands at the top level of its
  pattern, so it has a value whenever the pattern matched (lemma
  \<open>re_match_group_defined\<close> below); the empty string for a group without a value is
  never returned to the program.
\<close>

definition group :: "groups \<Rightarrow> nat \<Rightarrow> string" where
  "group g n = (case map_of g n of Some s \<Rightarrow> s | None \<Rightarrow> [])"

definition lits :: "string \<Rightarrow> item list" where
  "lits s = map (\<lambda>c. Ch (Lit c)) s"

definition litsI :: "string \<Rightarrow> item list" where
  "litsI s = map (\<lambda>c. Ch (LitI c)) s"

subsection \<open>The patterns of \<^verbatim>\<open>parseLine\<close>\<close>

definition re_rightSpace :: "item list" where
  \<comment> \<open>\<^verbatim>\<open>(.*?)(\s+)$\<close>\<close>
  "re_rightSpace = [Grp 1 [Rep True Dot 0 None], Grp 2 [Rep False Space 1 None], Eol]"

definition re_fixedLabel :: "item list" where
  \<comment> \<open>\<^verbatim>\<open>\s{0,4}(\d+)(.*?)$\<close>\<close>
  "re_fixedLabel =
     [Rep False Space 0 (Some 4), Grp 1 [Rep False Digit 1 None], Grp 2 [Rep True Dot 0 None], Eol]"

definition re_leftSpace :: "item list" where
  \<comment> \<open>\<^verbatim>\<open>(\s+)(.*?)$\<close>\<close>
  "re_leftSpace = [Grp 1 [Rep False Space 1 None], Grp 2 [Rep True Dot 0 None], Eol]"

definition re_comment :: "item list" where
  \<comment> \<open>\<^verbatim>\<open>(.*?)(\s*)(!.*?)$\<close>\<close>
  "re_comment =
     [Grp 1 [Rep True Dot 0 None], Grp 2 [Rep False Space 0 None],
      Grp 3 [Ch (Lit CHR ''!''), Rep True Dot 0 None], Eol]"

definition re_freeLabel :: "item list" where
  \<comment> \<open>\<^verbatim>\<open>(\d+\s+)(.*?)$\<close>\<close>
  "re_freeLabel =
     [Grp 1 [Rep False Digit 1 None, Rep False Space 1 None], Grp 2 [Rep True Dot 0 None], Eol]"

definition re_freeCont :: "item list" where
  \<comment> \<open>\<^verbatim>\<open>(&\s*)(.*?)$\<close>\<close>
  "re_freeCont =
     [Grp 1 [Ch (Lit CHR ''&''), Rep False Space 0 None], Grp 2 [Rep True Dot 0 None], Eol]"

subsection \<open>The patterns of the indentation checks\<close>

definition re_do :: "item list" where
  \<comment> \<open>\<^verbatim>\<open>(?i)(\w+:\s+)?do\b\<close>\<close>
  "re_do =
     Opt [Grp 1 [Rep False WordCh 1 None, Ch (Lit CHR '':''), Rep False Space 1 None]]
       # litsI ''do'' @ [Wb]"

definition re_ifthen :: "item list" where
  \<comment> \<open>\<^verbatim>\<open>(?i)if\b.*?\bthen\b\<close>\<close>
  "re_ifthen = litsI ''if'' @ [Wb, Rep True Dot 0 None, Wb] @ litsI ''then'' @ [Wb]"

definition re_subroutine :: "item list" where
  \<comment> \<open>\<^verbatim>\<open>(?i)subroutine\b\<close>\<close>
  "re_subroutine = litsI ''subroutine'' @ [Wb]"

definition re_module :: "item list" where
  \<comment> \<open>\<^verbatim>\<open>(?i)module\b\<close>\<close>
  "re_module = litsI ''module'' @ [Wb]"

definition re_type :: "item list" where
  \<comment> \<open>\<^verbatim>\<open>(?i)type\s*[^\s\(]\<close>\<close>
  "re_type = litsI ''type'' @ [Rep False Space 0 None, Ch (Neg [Space, Lit CHR ''(''])]"

definition re_interface :: "item list" where
  \<comment> \<open>\<^verbatim>\<open>(?i)interface\b\<close>\<close>
  "re_interface = litsI ''interface'' @ [Wb]"

definition re_blockdata :: "item list" where
  \<comment> \<open>\<^verbatim>\<open>(?i)block\s?data\b\<close>\<close>
  "re_blockdata = litsI ''block'' @ [Rep False Space 0 (Some 1)] @ litsI ''data'' @ [Wb]"

definition re_function :: "item list" where
  \<comment> \<open>\<^verbatim>\<open>(?i)function\b\<close>\<close>
  "re_function = litsI ''function'' @ [Wb]"

definition re_where :: "item list" where
  \<comment> \<open>\<^verbatim>\<open>(?i)where\b.*?\)$\<close>\<close>
  "re_where = litsI ''where'' @ [Wb, Rep True Dot 0 None, Ch (Lit CHR '')''), Eol]"

definition re_else :: "item list" where
  \<comment> \<open>\<^verbatim>\<open>(?i)else(if)?\b\<close>\<close>
  "re_else = litsI ''else'' @ [Opt [Grp 1 (litsI ''if'')], Wb]"

definition re_decrease :: "item list" where
  \<comment> \<open>\<^verbatim>\<open>(?i)(end(if|do|where)?|else(if)?)\b\<close>\<close>
  "re_decrease =
     [Grp 1 [Alt (litsI ''end'' @ [Opt [Grp 2 [Alt (litsI ''if'') [Alt (litsI ''do'') (litsI ''where'')]]]])
                 (litsI ''else'' @ [Opt [Grp 3 (litsI ''if'')]])],
      Wb]"

subsection \<open>The patterns of \<^verbatim>\<open>transformDoxygenBlocks\<close>\<close>

definition re_file :: "item list" where
  \<comment> \<open>\<^verbatim>\<open>!\s(\S+\.\S+)\s+c$\<close>\<close>
  "re_file =
     [Ch (Lit CHR ''!''), Ch Space,
      Grp 1 [Rep False (Neg [Space]) 1 None, Ch (Lit CHR ''.''), Rep False (Neg [Space]) 1 None],
      Rep False Space 1 None, Ch (Lit CHR ''c''), Eol]"

definition re_param :: "item list" where
  \<comment> \<open>\<^verbatim>\<open>!\s>\s+\\(param.*?)$\<close>, the doubled backslash being one literal backslash\<close>
  "re_param =
     [Ch (Lit CHR ''!''), Ch Space, Ch (Lit CHR ''>''), Rep False Space 1 None, Ch (Lit CHR 0x5C),
      Grp 1 (lits ''param'' @ [Rep True Dot 0 None]), Eol]"

definition re_date :: "item list" where
  \<comment> \<open>\<^verbatim>\<open>!\s(\d{4}\.\d{2}\.\d{2})\s-\s(.*?)\s+c$\<close>\<close>
  "re_date =
     [Ch (Lit CHR ''!''), Ch Space,
      Grp 1 [Rep False Digit 4 (Some 4), Ch (Lit CHR ''.''), Rep False Digit 2 (Some 2),
             Ch (Lit CHR ''.''), Rep False Digit 2 (Some 2)],
      Ch Space, Ch (Lit CHR ''-''), Ch Space, Grp 2 [Rep True Dot 0 None],
      Rep False Space 1 None, Ch (Lit CHR ''c''), Eol]"

definition re_mail :: "item list" where
  \<comment> \<open>\<^verbatim>\<open>!\s(.*?)\s\[(.*?@.*?\..*?)\]\s+c$\<close>\<close>
  "re_mail =
     [Ch (Lit CHR ''!''), Ch Space, Grp 1 [Rep True Dot 0 None], Ch Space, Ch (Lit CHR ''[''),
      Grp 2 [Rep True Dot 0 None, Ch (Lit CHR ''@''), Rep True Dot 0 None, Ch (Lit CHR ''.''),
             Rep True Dot 0 None],
      Ch (Lit CHR '']''), Rep False Space 1 None, Ch (Lit CHR ''c''), Eol]"

section \<open>A source line: class \<^verbatim>\<open>CodeLine\<close>\<close>

record CodeLine =
  isFreeForm :: bool
  remarks :: "string list"
  line :: string
  origCodeLength :: int
  preProc :: string
  leftSpace :: string
  code :: string
  midSpace :: string
  comment :: string
  rightSpace :: string
  fixedComment :: string
  fixedLabel :: string
  fixedCont :: string
  freeLabel :: string
  freeContBeg :: string
  freeContEnd :: string
  isContinued :: bool
  isContinuation :: bool

text \<open>\<^verbatim>\<open>CodeLine.__init__(line, isFreeForm)\<close>\<close>

definition newCodeLine :: "string \<Rightarrow> bool \<Rightarrow> CodeLine" where
  "newCodeLine l ff =
     \<lparr> isFreeForm = ff, remarks = [], line = l, origCodeLength = 0,
       preProc = [], leftSpace = [], code = [], midSpace = [], comment = [], rightSpace = [],
       fixedComment = [], fixedLabel = [], fixedCont = [],
       freeLabel = [], freeContBeg = [], freeContEnd = [],
       isContinued = False, isContinuation = False \<rparr>"

subsection \<open>\<^verbatim>\<open>parseLine\<close>, in the order of its steps\<close>

text \<open>Lines 220 to 223: strip away any trailing whitespace.\<close>

definition stripRight :: "CodeLine \<Rightarrow> CodeLine" where
  "stripRight cl =
     (case re_match re_rightSpace (line cl) of
        Some m \<Rightarrow> cl\<lparr>rightSpace := group m 2, line := group m 1\<rparr>
      | None \<Rightarrow> cl)"

text \<open>Lines 242 to 250: the label, otherwise the continuation column, of fixed form.\<close>

definition fixedColumns :: "CodeLine \<Rightarrow> error + CodeLine" where
  "fixedColumns cl =
     (case re_match re_fixedLabel (line cl) of
        Some m \<Rightarrow> Inr (cl\<lparr>fixedLabel := group m 1, line := group m 2\<rparr>)
      | None \<Rightarrow>
          if length (line cl) > 5 then
            (case index (line cl) 0 of
               Inl e \<Rightarrow> Inl e
             | Inr c0 \<Rightarrow>
                 if c0 \<noteq> tab then
                   (case index (line cl) 5 of
                      Inl e \<Rightarrow> Inl e
                    | Inr c5 \<Rightarrow>
                        if c5 \<notin> set [CHR '' '', CHR ''0'']
                        then Inr (cl\<lparr>fixedCont := take 6 (line cl), isContinuation := True,
                                      line := drop 6 (line cl)\<rparr>)
                        else Inr cl)
                 else Inr cl)
          else Inr cl)"

text \<open>Lines 253 to 256: strip away left whitespace.\<close>

definition stripLeft :: "CodeLine \<Rightarrow> CodeLine" where
  "stripLeft cl =
     (case re_match re_leftSpace (line cl) of
        Some m \<Rightarrow> cl\<lparr>leftSpace := group m 1, line := group m 2\<rparr>
      | None \<Rightarrow> cl)"

text \<open>Lines 259 to 263: check for free comments.\<close>

definition freeComment :: "CodeLine \<Rightarrow> CodeLine" where
  "freeComment cl =
     (case re_match re_comment (line cl) of
        Some m \<Rightarrow> cl\<lparr>midSpace := group m 2, comment := group m 3, line := group m 1\<rparr>
      | None \<Rightarrow> cl)"

text \<open>Lines 266 to 278: the label and the continuation sign of free form.\<close>

definition freeLabelStep :: "CodeLine \<Rightarrow> CodeLine" where
  "freeLabelStep cl =
     (case re_match re_freeLabel (line cl) of
        Some m \<Rightarrow> cl\<lparr>freeLabel := group m 1, line := group m 2\<rparr>
      | None \<Rightarrow> cl)"

definition freeContStep :: "CodeLine \<Rightarrow> CodeLine" where
  "freeContStep cl =
     (case re_match re_freeCont (line cl) of
        Some m \<Rightarrow> cl\<lparr>freeContBeg := group m 1, isContinuation := True, line := group m 2\<rparr>
      | None \<Rightarrow> cl)"

definition freeChecks :: "CodeLine \<Rightarrow> CodeLine" where
  "freeChecks cl = (if isFreeForm cl then freeContStep (freeLabelStep cl) else cl)"

text \<open>Lines 281 to 285: what is left is the code; record its length.\<close>

definition finish :: "CodeLine \<Rightarrow> CodeLine" where
  "finish cl = cl\<lparr>code := line cl, line := [], origCodeLength := int (length (line cl))\<rparr>"

definition parseLine :: "CodeLine \<Rightarrow> error + CodeLine" where
  "parseLine cl0 =
     (let cl = stripRight cl0 in
      if length (line cl) = 0 then Inr cl
      else
        case index (line cl) 0 of
          Inl e \<Rightarrow> Inl e
        | Inr c0 \<Rightarrow>
            if c0 = CHR ''#'' then Inr (cl\<lparr>preProc := line cl\<rparr>)
            else if \<not> isFreeForm cl then
              (case index (line cl) 0 of
                 Inl e \<Rightarrow> Inl e
               | Inr c1 \<Rightarrow>
                   if c1 \<in> set [CHR ''c'', CHR ''C'', CHR ''*'', CHR ''!'']
                   then Inr (cl\<lparr>fixedComment := line cl\<rparr>)
                   else
                     (case fixedColumns cl of
                        Inl e \<Rightarrow> Inl e
                      | Inr cl' \<Rightarrow> Inr (finish (freeChecks (freeComment (stripLeft cl'))))))
            else Inr (finish (freeChecks (freeComment (stripLeft cl)))))"

subsection \<open>The other methods of a line\<close>

definition hasCode :: "CodeLine \<Rightarrow> bool" where
  "hasCode cl = (if length (code cl) \<noteq> 0 then True else False)"

definition convertFixedToFree :: "CodeLine \<Rightarrow> CodeLine" where
  "convertFixedToFree cl0 =
     (if isFreeForm cl0 then cl0
      else
        let cl = cl0\<lparr>isFreeForm := True\<rparr> in
        if length (fixedComment cl) \<noteq> 0 then
          (let cl1 = (if length (lstrip (drop 1 (fixedComment cl))) \<noteq> 0
                      then cl\<lparr>comment := ''! '' @ lstrip (drop 1 (fixedComment cl))\<rparr>
                      else cl)
           in cl1\<lparr>fixedComment := []\<rparr>)
        else
          let cl1 = (if length (fixedLabel cl) \<noteq> 0
                     then cl\<lparr>freeLabel := fixedLabel cl @ '' '', fixedLabel := []\<rparr>
                     else cl);
              cl2 = (if length (fixedCont cl1) \<noteq> 0
                     then (if isContinuation cl1 then cl1\<lparr>freeContBeg := ''&''\<rparr> else cl1)
                            \<lparr>fixedCont := []\<rparr>
                     else cl1)
          in if isContinued cl2 then cl2\<lparr>freeContEnd := ''&''\<rparr> else cl2)"

definition setIndentation :: "CodeLine \<Rightarrow> int \<Rightarrow> string \<Rightarrow> CodeLine" where
  "setIndentation cl level indent =
     (if hasCode cl \<or> length (comment cl) \<noteq> 0
      then cl\<lparr>leftSpace := str_times indent level\<rparr>
      else cl\<lparr>leftSpace := []\<rparr>)"

definition matches :: "item list \<Rightarrow> string \<Rightarrow> bool" where
  "matches r s = (re_match r s \<noteq> None)"

definition increasesIndentAfter :: "CodeLine \<Rightarrow> bool" where
  "increasesIndentAfter cl =
     (if matches re_do (code cl)
         \<or> matches re_ifthen (code cl)
         \<or> matches re_subroutine (code cl)
         \<or> matches re_module (code cl)
         \<or> matches re_type (code cl)
         \<or> matches re_interface (code cl)
         \<or> matches re_blockdata (code cl)
         \<or> matches re_function (code cl)
         \<or> matches re_where (code cl)
         \<or> matches re_else (code cl)
      then True else False)"

definition decreasesIndentBefore :: "CodeLine \<Rightarrow> bool" where
  "decreasesIndentBefore cl = (if matches re_decrease (code cl) then True else False)"

definition verifyContinuation :: "CodeLine \<Rightarrow> CodeLine" where
  "verifyContinuation cl = (if \<not> hasCode cl then cl\<lparr>isContinuation := False\<rparr> else cl)"

definition swallowLengthChange :: "CodeLine \<Rightarrow> CodeLine" where
  "swallowLengthChange cl =
     (if \<not> (length (comment cl) \<noteq> 0) \<or> \<not> hasCode cl then cl
      else
        let lengthChange = int (length (code cl)) - origCodeLength cl in
        if \<not> (lengthChange \<noteq> 0) then cl
        else
          let numLeftSpaces = max 1 (int (length (midSpace cl)) - lengthChange)
          in cl\<lparr>midSpace := str_times '' '' numLeftSpaces\<rparr>)"

definition buildFullLine :: "CodeLine \<Rightarrow> string" where
  "buildFullLine cl =
     preProc cl @ fixedComment cl @ fixedLabel cl @ fixedCont cl
       @ leftSpace cl @ freeLabel cl @ freeContBeg cl @ code cl
       @ freeContEnd cl @ midSpace cl @ comment cl
       @ rightSpace cl"

section \<open>A source file: class \<^verbatim>\<open>CodeFile\<close>, as the list of its lines\<close>

subsection \<open>\<^verbatim>\<open>fixIndentation\<close>\<close>

text \<open>Lines 55 to 59: the depth the line is written with, and the remark of an underflow.\<close>

definition enterLine :: "int \<Rightarrow> CodeLine \<Rightarrow> CodeLine \<times> int" where
  "enterLine curIndent codeLine =
     (let cur1 = (if decreasesIndentBefore codeLine then curIndent - 1 else curIndent)
      in if cur1 < 0
         then (codeLine\<lparr>remarks := remarks codeLine @ [''Negative indentation level reached.'']\<rparr>, 0)
         else (codeLine, cur1))"

text \<open>Lines 64 and 65.\<close>

definition leaveLine :: "int \<Rightarrow> CodeLine \<Rightarrow> int" where
  "leaveLine curIndent codeLine =
     (if increasesIndentAfter codeLine then curIndent + 1 else curIndent)"

text \<open>The loop, from a given depth; it returns the lines and the depth it ends with.\<close>

fun fixLoop :: "string \<Rightarrow> int \<Rightarrow> int \<Rightarrow> CodeLine list \<Rightarrow> CodeLine list \<times> int" where
  "fixLoop indent contiIndent curIndent [] = ([], curIndent)"
| "fixLoop indent contiIndent curIndent (codeLine # rest) =
     (let (cl1, cur2) = enterLine curIndent codeLine;
          cl2 = setIndentation cl1 (cur2 + (if isContinuation cl1 then contiIndent else 0)) indent;
          cur3 = leaveLine cur2 cl2;
          (rest', final) = fixLoop indent contiIndent cur3 rest
      in (cl2 # rest', final))"

definition fixIndentation :: "string \<Rightarrow> int \<Rightarrow> CodeLine list \<Rightarrow> CodeLine list" where
  "fixIndentation indent contiIndent codeLines = fst (fixLoop indent contiIndent 0 codeLines)"

text \<open>
  The value of \<^verbatim>\<open>curIndent\<close> when the loop of \<open>fixIndentation\<close> reaches line \<open>i\<close>, and
  its value when the indentation of line \<open>i\<close> is written.
\<close>

definition depthBefore :: "string \<Rightarrow> int \<Rightarrow> CodeLine list \<Rightarrow> nat \<Rightarrow> int" where
  "depthBefore indent contiIndent codeLines i = snd (fixLoop indent contiIndent 0 (take i codeLines))"

definition depthWritten :: "string \<Rightarrow> int \<Rightarrow> CodeLine list \<Rightarrow> nat \<Rightarrow> int" where
  "depthWritten indent contiIndent codeLines i =
     snd (enterLine (depthBefore indent contiIndent codeLines i) (codeLines ! i))"

subsection \<open>\<^verbatim>\<open>transformDoxygenBlocks\<close>\<close>

text \<open>Lines 93 to 124: the rewriting of a comment inside a block.\<close>

definition inBlockComment :: "string \<Rightarrow> string" where
  "inBlockComment c =
     (if count_list c CHR ''-'' = 60 then ''!>''
      else case re_match re_file c of
        Some m \<Rightarrow> ''!> @file '' @ group m 1
      | None \<Rightarrow>
      (case re_match re_param c of
        Some m \<Rightarrow> ''!> @'' @ group m 1
      | None \<Rightarrow>
      (case re_match re_date c of
        Some m \<Rightarrow> ''!> @date '' @ group m 1 @ '' -- '' @ group m 2
      | None \<Rightarrow>
      (case re_match re_mail c of
        Some m \<Rightarrow> ''!> @authors '' @ group m 1 @ '' <'' @ group m 2 @ ''>''
      | None \<Rightarrow> ''!> @brief '' @ lstrip (drop 3 c)))))"

text \<open>One turn of the loop: the line and the state \<^verbatim>\<open>inBlock\<close> after it.\<close>

definition doxygenStep :: "int \<Rightarrow> bool \<Rightarrow> CodeLine \<Rightarrow> CodeLine \<times> bool" where
  "doxygenStep len inBlock codeLine =
     (if count_list (comment codeLine) CHR ''c'' = 70
      then (codeLine\<lparr>comment := ''!'' @ str_times ''-'' (len - 1)\<rparr>, \<not> inBlock)
      else if inBlock then (codeLine\<lparr>comment := inBlockComment (comment codeLine)\<rparr>, inBlock)
      else (codeLine, inBlock))"

fun doxygenLoop :: "int \<Rightarrow> bool \<Rightarrow> CodeLine list \<Rightarrow> CodeLine list \<times> bool" where
  "doxygenLoop len inBlock [] = ([], inBlock)"
| "doxygenLoop len inBlock (codeLine # rest) =
     (let (cl', inBlock') = doxygenStep len inBlock codeLine;
          (rest', final) = doxygenLoop len inBlock' rest
      in (cl' # rest', final))"

definition transformDoxygenBlocks :: "int \<Rightarrow> CodeLine list \<Rightarrow> CodeLine list" where
  "transformDoxygenBlocks len codeLines = fst (doxygenLoop len False codeLines)"

text \<open>The value of \<^verbatim>\<open>inBlock\<close> when the loop reaches line \<open>i\<close>.\<close>

definition blockStateBefore :: "int \<Rightarrow> CodeLine list \<Rightarrow> nat \<Rightarrow> bool" where
  "blockStateBefore len codeLines i = snd (doxygenLoop len False (take i codeLines))"

subsection \<open>\<^verbatim>\<open>identifyContinuations\<close>\<close>

text \<open>The loop over the reversed list, from a given value of \<^verbatim>\<open>inConti\<close>.\<close>

fun contiLoop :: "bool \<Rightarrow> CodeLine list \<Rightarrow> CodeLine list \<times> bool" where
  "contiLoop inConti [] = ([], inConti)"
| "contiLoop inConti (codeLine # rest) =
     (let (cl1, inConti1) = (if hasCode codeLine \<and> inConti
                              then (codeLine\<lparr>isContinued := True\<rparr>, False)
                              else (codeLine, inConti));
          inConti2 = (if isContinuation cl1 then True else inConti1);
          (rest', final) = contiLoop inConti2 rest
      in (cl1 # rest', final))"

definition identifyContinuations :: "CodeLine list \<Rightarrow> CodeLine list" where
  "identifyContinuations codeLines = rev (fst (contiLoop False (rev codeLines)))"

text \<open>
  Whether a continuation is pending for the line just before the lines \<open>post\<close>: the value
  of \<^verbatim>\<open>inConti\<close> once the reversed loop has gone through \<open>post\<close>.
\<close>

fun pending :: "CodeLine list \<Rightarrow> bool" where
  "pending [] = False"
| "pending (y # post) = (isContinuation y \<or> (\<not> hasCode y \<and> pending post))"

subsection \<open>Reading a file: \<^verbatim>\<open>CodeFile.__init__\<close> followed by the parse of every line\<close>

text \<open>
  The constructor of \<^verbatim>\<open>CodeFile\<close> makes a \<^verbatim>\<open>CodeLine\<close> of every line of the file;
  \<open>parseAll\<close> calls \<open>parseLine\<close> on each of them and stops at the first error, as an
  exception would; \<open>analyse\<close> runs \<open>identifyContinuations\<close> on the parsed lines.
\<close>

fun parseAll :: "CodeLine list \<Rightarrow> error + CodeLine list" where
  "parseAll [] = Inr []"
| "parseAll (cl # rest) =
     (case parseLine cl of
        Inl e \<Rightarrow> Inl e
      | Inr cl' \<Rightarrow> (case parseAll rest of Inl e \<Rightarrow> Inl e | Inr rest' \<Rightarrow> Inr (cl' # rest')))"

definition analyse :: "string list \<Rightarrow> bool \<Rightarrow> error + CodeLine list" where
  "analyse content isFree =
     (case parseAll (map (\<lambda>l. newCodeLine l isFree) content) of
        Inl e \<Rightarrow> Inl e
      | Inr codeLines \<Rightarrow> Inr (identifyContinuations codeLines))"

section \<open>Functions that describe what the patterns of \<^verbatim>\<open>parseLine\<close> find\<close>

text \<open>
  These functions are not part of the program. They say, without the matcher, what the
  patterns of \<open>parseLine\<close> capture; the lemmas below prove that the matcher agrees.
  \<open>split_right\<close> is \<^verbatim>\<open>(.*?)(\s+)$\<close>, \<open>split_comment\<close> is \<^verbatim>\<open>(.*?)(\s*)(!.*?)$\<close> on
  a text without a newline, \<open>startsWithLabel\<close> says that the text begins with at most four
  whitespace characters followed by a digit (where \<^verbatim>\<open>\s{0,4}(\d+)\<close> finds its digits),
  \<open>assemble\<close> is the text of a line that is still being parsed (\<^verbatim>\<open>self.line\<close> in the
  place of the code), and \<open>top_groups\<close> are the groups at the top level of a pattern.
\<close>

fun split_right :: "string \<Rightarrow> (string \<times> string) option" where
  "split_right [] = None"
| "split_right (x # xs) =
     (if list_all isspace (x # xs) then Some ([], x # xs)
      else if x = newline then None
      else map_option (\<lambda>(u, v). (x # u, v)) (split_right xs))"

definition comment_here :: "string \<Rightarrow> (string \<times> string) option" where
  "comment_here t =
     (case dropWhile isspace t of
        [] \<Rightarrow> None
      | y # r \<Rightarrow> if y = CHR ''!'' then Some (takeWhile isspace t, y # r) else None)"

fun split_comment :: "string \<Rightarrow> (string \<times> string \<times> string) option" where
  "split_comment [] = None"
| "split_comment (x # xs) =
     (case comment_here (x # xs) of
        Some (w, c) \<Rightarrow> Some ([], w, c)
      | None \<Rightarrow> map_option (\<lambda>(a, w, c). (x # a, w, c)) (split_comment xs))"

definition startsWithLabel :: "string \<Rightarrow> bool" where
  "startsWithLabel s =
     (length (takeWhile isspace s) \<le> 4 \<and> takeWhile isdigit (dropWhile isspace s) \<noteq> [])"

definition assemble :: "CodeLine \<Rightarrow> string" where
  "assemble cl =
     preProc cl @ fixedComment cl @ fixedLabel cl @ fixedCont cl
       @ leftSpace cl @ freeLabel cl @ freeContBeg cl @ line cl
       @ freeContEnd cl @ midSpace cl @ comment cl
       @ rightSpace cl"

fun top_groups :: "item list \<Rightarrow> nat set" where
  "top_groups [] = {}"
| "top_groups (Grp n a # r) = insert n (top_groups r)"
| "top_groups (Mark n t # r) = insert n (top_groups r)"
| "top_groups (_ # r) = top_groups r"


section \<open>Facts for evaluating the definitions\<close>

lemmas char_defs =
  isspace_def isdigit_def isalnum_def isword_def lower_def newline_def tab_def

lemmas indent_defs =
  decreasesIndentBefore_def increasesIndentAfter_def matches_def re_match_def
  re_decrease_def re_do_def re_ifthen_def re_subroutine_def re_module_def re_type_def
  re_interface_def re_blockdata_def re_function_def re_where_def re_else_def litsI_def

lemmas parse_defs =
  parseLine_def stripRight_def fixedColumns_def stripLeft_def freeComment_def
  freeChecks_def freeLabelStep_def freeContStep_def finish_def newCodeLine_def index_def
  re_match_def group_def re_rightSpace_def re_fixedLabel_def re_leftSpace_def re_comment_def
  re_freeLabel_def re_freeCont_def

text \<open>Some characters beyond ASCII in their classes, and the folding of case.\<close>

lemma class_examples:
  "isspace (CHR 0x1C)" "isspace (CHR 0x85)" "isspace (CHR 0xA0)" "\<not> isspace (CHR 0x1B)"
  "isword (CHR 0xE9)" "isword (CHR 0xB5)" "\<not> isword (CHR 0xD7)" "\<not> isword (CHR 0xF7)"
  "lower (CHR ''E'') = CHR ''e''" "lower (CHR 0xC9) = CHR 0xE9" "lower (CHR 0xD7) = CHR 0xD7"
  by code_simp+

lemma str_times_space: "str_times '' '' n = replicate (nat n) CHR '' ''"
  by (induction "nat n" arbitrary: n)
    (auto simp: str_times_def replicate_Suc[symmetric] simp del: replicate_Suc)

section \<open>Layout conversion\<close>

lemma isFreeForm_convert: "isFreeForm (convertFixedToFree cl)"
  by (simp add: convertFixedToFree_def Let_def)

text \<open>
  Claim C5. \<open>convertFixedToFree\<close> is idempotent: a line that is already in free form is
  returned as it is; the converted line is in free form, so that a second conversion of a
  fixed-form line changes nothing any more.
\<close>

theorem convertFixedToFree_idempotent:
  "(isFreeForm cl \<longrightarrow> convertFixedToFree cl = cl)
   \<and> isFreeForm (convertFixedToFree cl)
   \<and> convertFixedToFree (convertFixedToFree cl) = convertFixedToFree cl"
proof -
  have a: "isFreeForm c \<Longrightarrow> convertFixedToFree c = c" for c
    by (simp add: convertFixedToFree_def)
  show ?thesis using a isFreeForm_convert by blast
qed

theorem convertFixedToFree_idempotent_witness:
  "isFreeForm (newCodeLine ''x = 1'' True)
   \<and> convertFixedToFree (newCodeLine ''x = 1'' True) = newCodeLine ''x = 1'' True
   \<and> \<not> isFreeForm ((newCodeLine [] False)\<lparr>fixedComment := ''C this is a note''\<rparr>)
   \<and> convertFixedToFree
         (convertFixedToFree ((newCodeLine [] False)\<lparr>fixedComment := ''C this is a note''\<rparr>))
       = (newCodeLine [] True)\<lparr>comment := ''! this is a note''\<rparr>"
  using convertFixedToFree_idempotent[of "newCodeLine ''x = 1'' True"]
    convertFixedToFree_idempotent
      [of "(newCodeLine [] False)\<lparr>fixedComment := ''C this is a note''\<rparr>"]
  by (simp add: newCodeLine_def convertFixedToFree_def lstrip_def isspace_def)

section \<open>Continuation lines without code\<close>

text \<open>
  Claim C10. \<open>verifyContinuation\<close> clears \<open>isContinuation\<close> when the code region is
  empty and changes nothing otherwise; after it, a line whose \<open>isContinuation\<close> is true
  has a non-empty code region.
\<close>

theorem verifyContinuation_spec:
  "(code cl = [] \<longrightarrow> verifyContinuation cl = cl\<lparr>isContinuation := False\<rparr>)
   \<and> (code cl \<noteq> [] \<longrightarrow> verifyContinuation cl = cl)
   \<and> (isContinuation (verifyContinuation cl) \<longrightarrow> code (verifyContinuation cl) \<noteq> [])"
  by (simp add: verifyContinuation_def hasCode_def)

theorem verifyContinuation_spec_witness:
  "code ((newCodeLine [] False)\<lparr>fixedCont := ''     x'', isContinuation := True\<rparr>) = []
   \<and> verifyContinuation ((newCodeLine [] False)\<lparr>fixedCont := ''     x'', isContinuation := True\<rparr>)
       = (newCodeLine [] False)\<lparr>fixedCont := ''     x'', isContinuation := False\<rparr>
   \<and> code ((newCodeLine [] False)
              \<lparr>fixedCont := ''     x'', code := ''+ 1'', isContinuation := True\<rparr>) \<noteq> []
   \<and> verifyContinuation ((newCodeLine [] False)
              \<lparr>fixedCont := ''     x'', code := ''+ 1'', isContinuation := True\<rparr>)
       = (newCodeLine [] False)\<lparr>fixedCont := ''     x'', code := ''+ 1'', isContinuation := True\<rparr>
   \<and> isContinuation (verifyContinuation ((newCodeLine [] False)
              \<lparr>fixedCont := ''     x'', code := ''+ 1'', isContinuation := True\<rparr>))"
  using verifyContinuation_spec
      [of "(newCodeLine [] False)\<lparr>fixedCont := ''     x'', isContinuation := True\<rparr>"]
    verifyContinuation_spec
      [of "(newCodeLine [] False)\<lparr>fixedCont := ''     x'', code := ''+ 1'', isContinuation := True\<rparr>"]
  by (simp add: newCodeLine_def)

section \<open>The space between code and comment\<close>

text \<open>
  Claim C6. For a line with code and a trailing comment whose code has grown since it was
  parsed, \<open>swallowLengthChange\<close> sets the space between the two to
  \<open>max 1 (length of that space - growth)\<close> blanks: at least one blank is left.
\<close>

theorem swallowLengthChange_grown:
  assumes "code cl \<noteq> []" and "comment cl \<noteq> []"
    and "origCodeLength cl < int (length (code cl))"
  shows "midSpace (swallowLengthChange cl)
           = replicate (nat (max 1 (int (length (midSpace cl))
                                     - (int (length (code cl)) - origCodeLength cl)))) CHR '' ''
         \<and> 1 \<le> length (midSpace (swallowLengthChange cl))"
  using assms by (simp add: swallowLengthChange_def hasCode_def Let_def str_times_space)

theorem swallowLengthChange_grown_witness:
  "code ((newCodeLine [] True)
      \<lparr>code := ''call foo (x)'', origCodeLength := 9, midSpace := ''  '', comment := ''! note''\<rparr>) \<noteq> []
   \<and> comment ((newCodeLine [] True)
      \<lparr>code := ''call foo (x)'', origCodeLength := 9, midSpace := ''  '', comment := ''! note''\<rparr>) \<noteq> []
   \<and> midSpace (swallowLengthChange ((newCodeLine [] True)
      \<lparr>code := ''call foo (x)'', origCodeLength := 9, midSpace := ''  '', comment := ''! note''\<rparr>))
       = '' ''"
  using swallowLengthChange_grown[of "(newCodeLine [] True)
      \<lparr>code := ''call foo (x)'', origCodeLength := 9, midSpace := ''  '', comment := ''! note''\<rparr>"]
  by (simp add: newCodeLine_def)

section \<open>The indentation engine\<close>

lemma fixLoop_append:
  "fixLoop ind c cur (xs @ ys) =
     (let (xs', cur') = fixLoop ind c cur xs; (ys', cur'') = fixLoop ind c cur' ys
      in (xs' @ ys', cur''))"
  by (induction xs arbitrary: cur) (simp_all add: split_beta Let_def)

lemma length_fixLoop: "length (fst (fixLoop ind c cur ls)) = length ls"
  by (induction ls arbitrary: cur) (simp_all add: split_beta Let_def)

lemma fixLoop_nth:
  assumes "i < length ls"
  shows "fst (fixLoop ind c cur ls) ! i =
     (let (cl1, d) = enterLine (snd (fixLoop ind c cur (take i ls))) (ls ! i)
      in setIndentation cl1 (d + (if isContinuation cl1 then c else 0)) ind)"
proof -
  have "ls = take i ls @ (ls ! i) # drop (Suc i) ls"
    using assms by (simp add: id_take_nth_drop)
  then have "fst (fixLoop ind c cur ls) ! i
      = fst (fixLoop ind c cur (take i ls @ (ls ! i) # drop (Suc i) ls)) ! i"
    by simp
  also have "\<dots> = (let (cl1, d) = enterLine (snd (fixLoop ind c cur (take i ls))) (ls ! i)
      in setIndentation cl1 (d + (if isContinuation cl1 then c else 0)) ind)"
    using assms
    by (simp add: fixLoop_append split_beta Let_def nth_append length_fixLoop)
  finally show ?thesis .
qed

lemma enterLine_nonneg: "0 \<le> snd (enterLine d cl)"
  by (simp add: enterLine_def Let_def)

lemma fixLoop_nonneg: "0 \<le> cur \<Longrightarrow> 0 \<le> snd (fixLoop ind c cur ls)"
proof (induction ls arbitrary: cur)
  case Nil
  then show ?case by simp
next
  case (Cons a ls)
  have "0 \<le> leaveLine (snd (enterLine cur a)) x" for x
    using enterLine_nonneg[of cur a] by (simp add: leaveLine_def)
  then show ?case using Cons.IH by (simp add: split_beta Let_def)
qed

lemma fixIndentation_nth:
  assumes "i < length ls"
  shows "fixIndentation ind c ls ! i =
     setIndentation (fst (enterLine (depthBefore ind c ls i) (ls ! i)))
       (depthWritten ind c ls i + (if isContinuation (ls ! i) then c else 0)) ind"
  using assms
  by (simp add: fixIndentation_def fixLoop_nth depthWritten_def depthBefore_def split_beta
      enterLine_def Let_def)

text \<open>
  Claim C3. In \<open>fixIndentation\<close>, the depth a line's indentation is written with
  (\<open>depthWritten\<close>, the value of \<^verbatim>\<open>curIndent\<close> in the call of \<open>setIndentation\<close>) is never
  negative. When a block-closing line takes the depth below zero, exactly one remark is
  appended to that line and the depth is reset to 0; in every other case the remarks of
  the line are unchanged.
\<close>

theorem fixIndentation_depth:
  assumes "i < length ls"
  shows "0 \<le> depthBefore ind c ls i \<and> 0 \<le> depthWritten ind c ls i
     \<and> fixIndentation ind c ls ! i =
         setIndentation (fst (enterLine (depthBefore ind c ls i) (ls ! i)))
           (depthWritten ind c ls i + (if isContinuation (ls ! i) then c else 0)) ind
     \<and> (if decreasesIndentBefore (ls ! i) \<and> depthBefore ind c ls i - 1 < 0
         then remarks (fixIndentation ind c ls ! i)
                = remarks (ls ! i) @ [''Negative indentation level reached.'']
              \<and> depthWritten ind c ls i = 0
         else remarks (fixIndentation ind c ls ! i) = remarks (ls ! i)
              \<and> depthWritten ind c ls i
                  = depthBefore ind c ls i - (if decreasesIndentBefore (ls ! i) then 1 else 0))"
proof -
  have b: "0 \<le> depthBefore ind c ls i"
    by (simp add: depthBefore_def fixLoop_nonneg)
  have w: "0 \<le> depthWritten ind c ls i"
    by (simp add: depthWritten_def enterLine_nonneg)
  have r: "remarks (setIndentation x l s) = remarks x" for x l s
    by (simp add: setIndentation_def)
  show ?thesis
    using b w fixIndentation_nth[OF assms, of ind c]
    by (simp add: r depthWritten_def enterLine_def Let_def)
qed

theorem fixIndentation_depth_witness:
  "(0::nat) < length [(newCodeLine [] True)\<lparr>code := ''end if''\<rparr>,
                      (newCodeLine [] True)\<lparr>code := ''x = 1''\<rparr>]
   \<and> depthWritten ''  '' 2 [(newCodeLine [] True)\<lparr>code := ''end if''\<rparr>,
                             (newCodeLine [] True)\<lparr>code := ''x = 1''\<rparr>] 0 = 0
   \<and> remarks (fixIndentation ''  '' 2 [(newCodeLine [] True)\<lparr>code := ''end if''\<rparr>,
                                        (newCodeLine [] True)\<lparr>code := ''x = 1''\<rparr>] ! 0)
       = [''Negative indentation level reached.'']"
  using fixIndentation_depth[of 0 "[(newCodeLine [] True)\<lparr>code := ''end if''\<rparr>,
                                    (newCodeLine [] True)\<lparr>code := ''x = 1''\<rparr>]" "''  ''" 2]
  by (simp add: newCodeLine_def depthWritten_def depthBefore_def fixIndentation_def enterLine_def
      leaveLine_def setIndentation_def hasCode_def str_times_def indent_defs char_defs)

text \<open>
  Claim C9. \<open>setIndentation\<close> writes the leading whitespace as \<^verbatim>\<open>indent * level\<close>, and
  as the empty string when the line has neither code nor a trailing comment. In
  \<open>fixIndentation\<close> the level of line \<open>i\<close> is the depth of that line plus
  \<^verbatim>\<open>contiIndent\<close>, the latter only when the line's \<open>isContinuation\<close> is true.
\<close>

theorem setIndentation_written:
  assumes "i < length ls"
  shows "leftSpace (setIndentation cl level ind)
           = (if code cl \<noteq> [] \<or> comment cl \<noteq> [] then str_times ind level else [])
     \<and> leftSpace (fixIndentation ind c ls ! i)
           = (if code (ls ! i) \<noteq> [] \<or> comment (ls ! i) \<noteq> []
              then str_times ind
                     (depthWritten ind c ls i + (if isContinuation (ls ! i) then c else 0))
              else [])"
  using fixIndentation_nth[OF assms, of ind c]
  by (simp add: setIndentation_def hasCode_def enterLine_def Let_def)

theorem setIndentation_written_witness:
  "(1::nat) < length [(newCodeLine [] True)\<lparr>code := ''if (x) then''\<rparr>,
       (newCodeLine [] True)\<lparr>code := ''y = 1'', freeContBeg := ''& '', isContinuation := True\<rparr>]
   \<and> leftSpace (setIndentation ((newCodeLine [] True)\<lparr>comment := ''! note''\<rparr>) 2 ''  '') = ''    ''
   \<and> leftSpace (fixIndentation ''  '' 2 [(newCodeLine [] True)\<lparr>code := ''if (x) then''\<rparr>,
       (newCodeLine [] True)\<lparr>code := ''y = 1'', freeContBeg := ''& '', isContinuation := True\<rparr>] ! 1)
       = ''      ''"
  using setIndentation_written[of 1 "[(newCodeLine [] True)\<lparr>code := ''if (x) then''\<rparr>,
       (newCodeLine [] True)\<lparr>code := ''y = 1'', freeContBeg := ''& '', isContinuation := True\<rparr>]"
       "(newCodeLine [] True)\<lparr>comment := ''! note''\<rparr>" 2 "''  ''" 2]
  by (simp add: newCodeLine_def depthWritten_def depthBefore_def fixIndentation_def enterLine_def
      leaveLine_def setIndentation_def hasCode_def str_times_def indent_defs char_defs
      eval_nat_numeral)

section \<open>The continuation analyzer\<close>

lemma contiLoop_append:
  "contiLoop b (xs @ ys) =
     (let (xs', b') = contiLoop b xs; (ys', b'') = contiLoop b' ys in (xs' @ ys', b''))"
  by (induction xs arbitrary: b) (simp_all add: split_beta Let_def)

lemma length_contiLoop: "length (fst (contiLoop b ls)) = length ls"
  by (induction ls arbitrary: b) (simp_all add: split_beta Let_def)

lemma pending_iff:
  "pending post = (\<exists>j<length post. isContinuation (post ! j) \<and> (\<forall>k<j. \<not> hasCode (post ! k)))"
proof (induction post)
  case Nil
  then show ?case by simp
next
  case (Cons y post)
  let ?Q = "\<lambda>l. \<exists>j<length l. isContinuation (l ! j) \<and> (\<forall>k<j. \<not> hasCode (l ! k))"
  have "?Q (y # post) = (isContinuation y \<or> (\<not> hasCode y \<and> ?Q post))"
  proof
    assume "?Q (y # post)"
    then obtain j where j: "j < Suc (length post)" "isContinuation ((y # post) ! j)"
        "\<forall>k<j. \<not> hasCode ((y # post) ! k)"
      by auto
    show "isContinuation y \<or> (\<not> hasCode y \<and> ?Q post)"
    proof (cases j)
      case 0
      with j show ?thesis by simp
    next
      case (Suc j')
      have "\<not> hasCode y" using j(3) Suc by auto
      moreover have "\<forall>k<j'. \<not> hasCode (post ! k)"
      proof (intro allI impI)
        fix k assume "k < j'"
        then have "Suc k < j" using Suc by simp
        with j(3) show "\<not> hasCode (post ! k)" by fastforce
      qed
      ultimately show ?thesis using j Suc by auto
    qed
  next
    assume a: "isContinuation y \<or> (\<not> hasCode y \<and> ?Q post)"
    show "?Q (y # post)"
    proof (cases "isContinuation y")
      case True
      then show ?thesis by (intro exI[of _ 0]) simp
    next
      case False
      with a obtain j where nc: "\<not> hasCode y" and j: "j < length post"
        "isContinuation (post ! j)" "\<forall>k<j. \<not> hasCode (post ! k)"
        by auto
      have "\<forall>k<Suc j. \<not> hasCode ((y # post) ! k)"
        using nc j(3) by (auto simp: nth_Cons split: nat.splits)
      then show ?thesis using j by (intro exI[of _ "Suc j"]) simp
    qed
  qed
  with Cons show ?case by simp
qed

lemma contiLoop_state: "snd (contiLoop False (rev post)) = pending post"
proof (induction post)
  case Nil
  then show ?case by simp
next
  case (Cons y post)
  then show ?case
    by (simp add: contiLoop_append split_beta Let_def) auto
qed

lemma identify_nth:
  assumes "i < length ls"
  shows "identifyContinuations ls ! i =
     (if hasCode (ls ! i) \<and> pending (drop (Suc i) ls) then (ls ! i)\<lparr>isContinued := True\<rparr> else ls ! i)"
proof -
  have ls: "ls = take i ls @ (ls ! i) # drop (Suc i) ls"
    using assms by (simp add: id_take_nth_drop)
  define A where "A = rev (drop (Suc i) ls)"
  define B where "B = rev (take i ls)"
  have r: "rev ls = A @ (ls ! i) # B"
    by (subst ls) (simp add: A_def B_def)
  have lenB: "length B = i" using assms by (simp add: B_def)
  have st: "snd (contiLoop False A) = pending (drop (Suc i) ls)"
    by (simp add: A_def contiLoop_state)
  define x' where "x' = (if hasCode (ls ! i) \<and> pending (drop (Suc i) ls)
      then (ls ! i)\<lparr>isContinued := True\<rparr> else ls ! i)"
  have "\<exists>B'. length B' = i \<and> fst (contiLoop False (rev ls)) = fst (contiLoop False A) @ x' # B'"
    unfolding r using st lenB
    by (simp add: contiLoop_append split_beta Let_def x'_def length_contiLoop)
  then obtain B' where B': "length B' = i"
    "fst (contiLoop False (rev ls)) = fst (contiLoop False A) @ x' # B'"
    by blast
  have "identifyContinuations ls ! i = (rev B' @ x' # rev (fst (contiLoop False A))) ! i"
    by (simp add: identifyContinuations_def B')
  also have "\<dots> = x'" using B'(1) by (simp add: nth_append)
  finally show ?thesis by (simp add: x'_def)
qed

lemma pending_drop:
  assumes "i < length ls"
  shows "pending (drop (Suc i) ls) =
     (\<exists>j. i < j \<and> j < length ls \<and> isContinuation (ls ! j)
          \<and> (\<forall>k. i < k \<and> k < j \<longrightarrow> \<not> hasCode (ls ! k)))"
proof
  assume "pending (drop (Suc i) ls)"
  then obtain j where j: "j < length ls - Suc i" "isContinuation (ls ! (Suc i + j))"
     "\<forall>k<j. \<not> hasCode (ls ! (Suc i + k))"
    by (auto simp: pending_iff)
  have "\<forall>k. i < k \<and> k < Suc i + j \<longrightarrow> \<not> hasCode (ls ! k)"
  proof (intro allI impI)
    fix k assume k: "i < k \<and> k < Suc i + j"
    then have "k - Suc i < j" by arith
    with j(3) have "\<not> hasCode (ls ! (Suc i + (k - Suc i)))" by blast
    moreover have "Suc i + (k - Suc i) = k" using k by arith
    ultimately show "\<not> hasCode (ls ! k)" by simp
  qed
  with j show "\<exists>j. i < j \<and> j < length ls \<and> isContinuation (ls ! j)
          \<and> (\<forall>k. i < k \<and> k < j \<longrightarrow> \<not> hasCode (ls ! k))"
    by (intro exI[of _ "Suc i + j"]) auto
next
  assume "\<exists>j. i < j \<and> j < length ls \<and> isContinuation (ls ! j)
          \<and> (\<forall>k. i < k \<and> k < j \<longrightarrow> \<not> hasCode (ls ! k))"
  then obtain j where j: "i < j" "j < length ls" "isContinuation (ls ! j)"
      "\<forall>k. i < k \<and> k < j \<longrightarrow> \<not> hasCode (ls ! k)"
    by blast
  have e: "Suc i + (j - Suc i) = j" using j(1) by arith
  have "\<forall>k<j - Suc i. \<not> hasCode (drop (Suc i) ls ! k)"
  proof (intro allI impI)
    fix k assume "k < j - Suc i"
    then have "i < Suc i + k \<and> Suc i + k < j" by arith
    with j(4) have "\<not> hasCode (ls ! (Suc i + k))" by blast
    then show "\<not> hasCode (drop (Suc i) ls ! k)" using j(2) \<open>k < j - Suc i\<close> by simp
  qed
  moreover have "isContinuation (drop (Suc i) ls ! (j - Suc i))"
    using j e by simp
  moreover have "j - Suc i < length (drop (Suc i) ls)" using j by simp
  ultimately show "pending (drop (Suc i) ls)" unfolding pending_iff by blast
qed

text \<open>
  Claim C2, as the code has it. After \<open>identifyContinuations\<close> over lines whose
  \<open>isContinued\<close> is false (as the constructor leaves it), \<open>isContinued\<close> of line \<open>i\<close>
  is true if and only if line \<open>i\<close> has code and some following line \<open>j\<close> has
  \<open>isContinuation\<close> true with no line with code strictly between \<open>i\<close> and \<open>j\<close>.
\<close>

theorem identifyContinuations_isContinued:
  assumes "i < length ls" and "\<forall>cl \<in> set ls. \<not> isContinued cl"
  shows "isContinued (identifyContinuations ls ! i) =
     (hasCode (ls ! i)
      \<and> (\<exists>j. i < j \<and> j < length ls \<and> isContinuation (ls ! j)
              \<and> (\<forall>k. i < k \<and> k < j \<longrightarrow> \<not> hasCode (ls ! k))))"
proof -
  have "\<not> isContinued (ls ! i)" using assms by simp
  then show ?thesis
    using identify_nth[OF assms(1)] pending_drop[OF assms(1)] by simp
qed

theorem identifyContinuations_isContinued_witness:
  "(0::nat) < length [(newCodeLine [] False)\<lparr>code := ''x = 1''\<rparr>,
                      (newCodeLine [] False)\<lparr>comment := ''! note''\<rparr>,
                      (newCodeLine [] False)\<lparr>fixedCont := ''     &'', code := ''+ 2'', isContinuation := True\<rparr>]
   \<and> isContinued (identifyContinuations
        [(newCodeLine [] False)\<lparr>code := ''x = 1''\<rparr>,
         (newCodeLine [] False)\<lparr>comment := ''! note''\<rparr>,
         (newCodeLine [] False)\<lparr>fixedCont := ''     &'', code := ''+ 2'', isContinuation := True\<rparr>] ! 0)"
  using identifyContinuations_isContinued[of 0
        "[(newCodeLine [] False)\<lparr>code := ''x = 1''\<rparr>,
         (newCodeLine [] False)\<lparr>comment := ''! note''\<rparr>,
         (newCodeLine [] False)\<lparr>fixedCont := ''     &'', code := ''+ 2'', isContinuation := True\<rparr>]"]
  by (simp add: newCodeLine_def hasCode_def identifyContinuations_def)


text \<open>
  The claim as it is written fails on a blank line followed by a continuation line: the
  continuation line is the nearest following line with code and nothing lies between the
  two, yet the blank line is not marked, because only a line with code is.
\<close>

theorem identifyContinuations_blank_counterexample:
  "parseAll [newCodeLine [newline] False, newCodeLine (''     &  + 2'' @ [newline]) False]
     = Inr [(newCodeLine [] False)\<lparr>rightSpace := [newline]\<rparr>,
            (newCodeLine [] False)\<lparr>fixedCont := ''     &'', leftSpace := ''  '', code := ''+ 2'',
               origCodeLength := 3, rightSpace := [newline], isContinuation := True\<rparr>]
   \<and> identifyContinuations
       [(newCodeLine [] False)\<lparr>rightSpace := [newline]\<rparr>,
        (newCodeLine [] False)\<lparr>fixedCont := ''     &'', leftSpace := ''  '', code := ''+ 2'',
               origCodeLength := 3, rightSpace := [newline], isContinuation := True\<rparr>]
     = [(newCodeLine [] False)\<lparr>rightSpace := [newline]\<rparr>,
        (newCodeLine [] False)\<lparr>fixedCont := ''     &'', leftSpace := ''  '', code := ''+ 2'',
               origCodeLength := 3, rightSpace := [newline], isContinuation := True\<rparr>]
   \<and> \<not> isContinued ((newCodeLine [] False)\<lparr>rightSpace := [newline]\<rparr>)"
  by (simp add: parse_defs char_defs identifyContinuations_def hasCode_def)


text \<open>
  When every continuation line has code, as after \<open>verifyContinuation\<close>, the line \<open>j\<close>
  is the nearest following line with code.
\<close>

lemma identifyContinuations_verified:
  assumes "i < length ls" and "\<forall>cl \<in> set ls. \<not> isContinued cl"
    and "\<forall>cl \<in> set ls. isContinuation cl \<longrightarrow> hasCode cl"
  shows "isContinued (identifyContinuations ls ! i) =
     (hasCode (ls ! i)
      \<and> (\<exists>j. i < j \<and> j < length ls \<and> hasCode (ls ! j) \<and> isContinuation (ls ! j)
              \<and> (\<forall>k. i < k \<and> k < j \<longrightarrow> \<not> hasCode (ls ! k))))"
proof -
  have "\<not> isContinued (ls ! i)" using assms by simp
  moreover have "(\<exists>j. i < j \<and> j < length ls \<and> isContinuation (ls ! j)
              \<and> (\<forall>k. i < k \<and> k < j \<longrightarrow> \<not> hasCode (ls ! k)))
     = (\<exists>j. i < j \<and> j < length ls \<and> hasCode (ls ! j) \<and> isContinuation (ls ! j)
              \<and> (\<forall>k. i < k \<and> k < j \<longrightarrow> \<not> hasCode (ls ! k)))"
    using assms(3) by (metis nth_mem)
  ultimately show ?thesis
    using identify_nth[OF assms(1)] pending_drop[OF assms(1)] by simp
qed


section \<open>The comment-block restructurer\<close>

lemma doxygenLoop_append:
  "doxygenLoop len b (xs @ ys) =
     (let (xs', b') = doxygenLoop len b xs; (ys', b'') = doxygenLoop len b' ys
      in (xs' @ ys', b''))"
  by (induction xs arbitrary: b) (simp_all add: split_beta Let_def)

lemma length_doxygenLoop: "length (fst (doxygenLoop len b ls)) = length ls"
  by (induction ls arbitrary: b) (simp_all add: split_beta Let_def)

lemma doxygen_nth:
  assumes "i < length ls"
  shows "transformDoxygenBlocks len ls ! i = fst (doxygenStep len (blockStateBefore len ls i) (ls ! i))"
proof -
  have "ls = take i ls @ (ls ! i) # drop (Suc i) ls"
    using assms by (simp add: id_take_nth_drop)
  then have "transformDoxygenBlocks len ls ! i
      = fst (doxygenLoop len False (take i ls @ (ls ! i) # drop (Suc i) ls)) ! i"
    by (simp add: transformDoxygenBlocks_def)
  also have "\<dots> = fst (doxygenStep len (blockStateBefore len ls i) (ls ! i))"
    using assms
    by (simp add: doxygenLoop_append split_beta Let_def nth_append length_doxygenLoop
        blockStateBefore_def)
  finally show ?thesis .
qed

lemma blockState_Suc:
  assumes "i < length ls"
  shows "blockStateBefore len ls (Suc i) = snd (doxygenStep len (blockStateBefore len ls i) (ls ! i))"
proof -
  have "take (Suc i) ls = take i ls @ [ls ! i]"
    using assms by (simp add: take_Suc_conv_app_nth)
  then show ?thesis
    by (simp add: blockStateBefore_def doxygenLoop_append split_beta Let_def)
qed

lemma count_list_repl: "count_list (replicate n x) y = (if x = y then n else 0)"
  by (induction n) auto

lemma count_list_app: "count_list (xs @ ys) y = count_list xs y + count_list ys y"
  by (induction xs) auto

text \<open>
  Claim C8, as the code has it. In \<open>transformDoxygenBlocks\<close> a line toggles the state
  \<^verbatim>\<open>inBlock\<close> and has its comment rewritten to the separator
  \<^verbatim>\<open>"!" + "-" * (length - 1)\<close> exactly when its comment region holds exactly 70
  occurrences of the character \<^verbatim>\<open>c\<close>, wherever they stand; no other line changes the
  state.
\<close>

theorem transformDoxygenBlocks_toggle:
  assumes "i < length ls"
  shows "blockStateBefore len ls (Suc i)
           = (if count_list (comment (ls ! i)) CHR ''c'' = 70
              then \<not> blockStateBefore len ls i else blockStateBefore len ls i)
     \<and> (if count_list (comment (ls ! i)) CHR ''c'' = 70
         then comment (transformDoxygenBlocks len ls ! i) = ''!'' @ str_times ''-'' (len - 1)
         else comment (transformDoxygenBlocks len ls ! i)
                = (if blockStateBefore len ls i then inBlockComment (comment (ls ! i))
                   else comment (ls ! i)))"
  using doxygen_nth[OF assms, of len] blockState_Suc[OF assms, of len]
  by (simp add: doxygenStep_def)

theorem transformDoxygenBlocks_toggle_witness:
  "(0::nat) < length [(newCodeLine [] True)\<lparr>comment := ''! '' @ replicate 70 CHR ''c''\<rparr>]
   \<and> \<not> blockStateBefore 72 [(newCodeLine [] True)\<lparr>comment := ''! '' @ replicate 70 CHR ''c''\<rparr>] 0
   \<and> blockStateBefore 72 [(newCodeLine [] True)\<lparr>comment := ''! '' @ replicate 70 CHR ''c''\<rparr>] (Suc 0)
   \<and> comment (transformDoxygenBlocks 72
         [(newCodeLine [] True)\<lparr>comment := ''! '' @ replicate 70 CHR ''c''\<rparr>] ! 0)
       = ''!'' @ replicate 71 CHR ''-''"
  using transformDoxygenBlocks_toggle
    [of 0 "[(newCodeLine [] True)\<lparr>comment := ''! '' @ replicate 70 CHR ''c''\<rparr>]" 72]
  by (simp add: newCodeLine_def blockStateBefore_def count_list_app count_list_repl
      str_times_def)


text \<open>
  The claim as it is written asks for a run of the marker character. A comment with 70
  scattered occurrences of \<^verbatim>\<open>c\<close> and other text between them toggles the state too.
\<close>

theorem transformDoxygenBlocks_scattered_counterexample:
  "set (''! '' @ replicate 35 CHR ''c'' @ '' no run '' @ replicate 35 CHR ''c'') \<noteq> {CHR ''c''}
   \<and> doxygenLoop 72 False
        [(newCodeLine [] True)
           \<lparr>comment := ''! '' @ replicate 35 CHR ''c'' @ '' no run '' @ replicate 35 CHR ''c''\<rparr>]
      = ([(newCodeLine [] True)\<lparr>comment := ''!'' @ replicate 71 CHR ''-''\<rparr>], True)"
  by (simp add: newCodeLine_def doxygenStep_def count_list_app count_list_repl
      str_times_def)

section \<open>What the matcher finds for the patterns of \<^verbatim>\<open>parseLine\<close>\<close>

text \<open>A group at the top level of a pattern has a value in every match.\<close>

lemma top_groups_append: "top_groups r \<subseteq> top_groups (a @ r)"
  by (induction a rule: top_groups.induct) auto

lemma rx_groups:
  "rx r p s g = Some g' \<Longrightarrow> top_groups r \<union> fst ` set g \<subseteq> fst ` set g'"
proof (induction r p s g arbitrary: g' rule: rx.induct)
  case (8 a r p s g)
  then show ?case using top_groups_append[of r a]
    by (auto split: option.splits)
next
  case (9 a b r p s g)
  then show ?case using top_groups_append[of r a] top_groups_append[of r b]
    by (auto split: option.splits)
next
  case (10 n a r p s g)
  then show ?case using top_groups_append[of "Mark n s # r" a] by auto
qed (auto split: option.splits if_splits)

lemma re_match_group_defined:
  "re_match r s = Some m \<Longrightarrow> n \<in> top_groups r \<Longrightarrow> map_of m n \<noteq> None"
  using rx_groups[of r None s "[]" m] by (auto simp: re_match_def map_of_eq_None_iff)

lemma cmatch_Space [simp]: "cmatch Space = isspace"
  by (rule ext) simp

lemma cmatch_Digit [simp]: "cmatch Digit = isdigit"
  by (rule ext) simp

lemma space_not_digit: "isspace x \<Longrightarrow> \<not> isdigit x"
  by (auto simp: isspace_def isdigit_def)

lemma newline_space: "isspace newline"
  by (simp add: isspace_def newline_def)

lemma take_length_dropWhile: "take (length t - length (dropWhile P t)) t = takeWhile P t"
proof -
  have "length t - length (dropWhile P t) = length (takeWhile P t)"
    by (metis add_diff_cancel_right' length_append takeWhile_dropWhile_id)
  then show ?thesis
    by (metis append_eq_conv_conj takeWhile_dropWhile_id)
qed

text \<open>The lazy tail \<^verbatim>\<open>(.*?)$\<close> on a text without a newline takes all of it.\<close>

lemma rx_tail:
  "newline \<notin> set t \<Longrightarrow>
   rx (Rep True Dot 0 None # Mark n t0 # [Eol]) p t g = Some ((n, t0) # g)"
  by (induction t arbitrary: p) auto

lemma rx_grp_tail:
  "newline \<notin> set t \<Longrightarrow>
   rx (Grp n [Rep True Dot 0 None] # [Eol]) p t g = Some ((n, t) # g)"
  by (simp add: rx_tail)

text \<open>A greedy repetition before the lazy tail takes the longest run of its class.\<close>

lemma rx_greedy_tail:
  "newline \<notin> set t \<Longrightarrow>
   rx (Rep False c lo None # Mark n t0 # Grp m [Rep True Dot 0 None] # [Eol]) p t g =
     (if lo \<le> length (takeWhile (cmatch c) t)
      then Some ((m, dropWhile (cmatch c) t)
                 # (n, take (length t0 - length (dropWhile (cmatch c) t)) t0) # g)
      else None)"
proof (induction t arbitrary: lo p)
  case Nil
  then show ?case by (cases lo) (simp_all add: rx_tail)
next
  case (Cons x xs)
  then have nl: "newline \<notin> set xs" and nlx: "newline \<notin> set (x # xs)" by auto
  show ?case
  proof (cases lo)
    case 0
    then show ?thesis using Cons.IH[OF nl, of 0 "Some x"] rx_tail[OF nlx] by simp
  next
    case (Suc lo')
    then show ?thesis using Cons.IH[OF nl, of lo' "Some x"] by simp
  qed
qed

text \<open>\<^verbatim>\<open>(\s+)$\<close> at a position: all that is left must be whitespace.\<close>

lemma rx_space_end:
  "rx (Rep False Space lo None # Mark n t0 # [Eol]) p t g =
     (if list_all isspace t \<and> lo \<le> length t then Some ((n, t0) # g) else None)"
proof (induction t arbitrary: lo p)
  case Nil
  then show ?case by (cases lo) simp_all
next
  case (Cons x xs)
  show ?case
  proof (cases lo)
    case 0
    show ?thesis
    proof (cases "isspace x")
      case True
      show ?thesis
      proof (cases "list_all isspace xs")
        case True
        with \<open>isspace x\<close> 0 show ?thesis using Cons.IH[of 0 "Some x"] by simp
      next
        case False
        then have "xs \<noteq> []" by auto
        with False \<open>isspace x\<close> 0 show ?thesis using Cons.IH[of 0 "Some x"] by simp
      qed
    next
      case False
      then have "x \<noteq> newline" using newline_space by auto
      with False 0 show ?thesis by simp
    qed
  next
    case (Suc lo')
    then show ?thesis using Cons.IH[of lo' "Some x"] by simp
  qed
qed

lemma rx_rightSpace:
  "rx (Rep True Dot 0 None # Mark 1 (pre @ t) # Grp 2 [Rep False Space (Suc 0) None] # [Eol]) p t g =
     map_option (\<lambda>(u, v). (2, v) # (1, pre @ u) # g) (split_right t)"
proof (induction t arbitrary: pre p)
  case Nil
  then show ?case by (simp add: rx_space_end)
next
  case (Cons x xs)
  have ne: "\<not> list_all isspace (x # xs) \<Longrightarrow> x = newline \<Longrightarrow> xs \<noteq> []"
    using newline_space by auto
  show ?case
    using Cons.IH[of "pre @ [x]" "Some x"]
    by (cases "split_right xs") (auto simp: rx_space_end)
qed

lemma re_match_rightSpace:
  "re_match re_rightSpace s = map_option (\<lambda>(u, v). [(2, v), (1, u)]) (split_right s)"
  using rx_rightSpace[of "[]" s None "[]"]
  by (simp add: re_match_def re_rightSpace_def)

lemma re_match_leftSpace:
  assumes "newline \<notin> set s"
  shows "re_match re_leftSpace s =
     (if takeWhile isspace s = [] then None
      else Some [(2, dropWhile isspace s), (1, takeWhile isspace s)])"
  using rx_greedy_tail[OF assms, of Space "Suc 0" 1 s 2 None "[]"]
  by (cases "takeWhile isspace s")
    (simp_all add: re_match_def re_leftSpace_def take_length_dropWhile)

text \<open>\<^verbatim>\<open>\s{0,4}(\d+)\<close>: when the digits are missing or stand too far right, no match.\<close>

lemma rx_digit_none:
  "takeWhile isdigit t = [] \<Longrightarrow> rx (Rep False Digit (Suc lo) None # r) p t g = None"
  by (cases t) (auto split: if_splits)

lemma rx_label_none:
  "\<not> (length (takeWhile isspace t) \<le> k \<and> takeWhile isdigit (dropWhile isspace t) \<noteq> []) \<Longrightarrow>
   rx (Rep False Space 0 (Some k) # Grp 1 [Rep False Digit (Suc 0) None] # r) p t g = None"
proof (induction t arbitrary: k p)
  case Nil
  then show ?case by simp
next
  case (Cons x xs)
  show ?case
  proof (cases "isspace x")
    case False
    with Cons.prems have "takeWhile isdigit (x # xs) = []" by simp
    then show ?thesis using False rx_digit_none[of "x # xs" 0] by simp
  next
    case True
    then have d: "takeWhile isdigit (x # xs) = []" by (simp add: space_not_digit)
    show ?thesis
    proof (cases k)
      case 0
      then show ?thesis using True rx_digit_none[OF d, of 0] by simp
    next
      case (Suc k')
      have "\<not> (length (takeWhile isspace xs) \<le> k'
            \<and> takeWhile isdigit (dropWhile isspace xs) \<noteq> [])"
        using Cons.prems True Suc by simp
      from Cons.IH[OF this, of "Some x"] show ?thesis
        using True Suc rx_digit_none[OF d, of 0] by simp
    qed
  qed
qed

lemma re_match_fixedLabel_none:
  "\<not> (length (takeWhile isspace s) \<le> 4 \<and> takeWhile isdigit (dropWhile isspace s) \<noteq> []) \<Longrightarrow>
   re_match re_fixedLabel s = None"
  using rx_label_none[of s 4] by (simp add: re_match_def re_fixedLabel_def)

lemma rx_digits_tail:
  assumes "newline \<notin> set t" and "takeWhile isdigit t \<noteq> []"
  shows "rx (Grp 1 [Rep False Digit (Suc 0) None] # Grp 2 [Rep True Dot 0 None] # [Eol]) p t g
         = Some ((2, dropWhile isdigit t) # (1, takeWhile isdigit t) # g)"
proof -
  have "Suc 0 \<le> length (takeWhile isdigit t)"
    using assms(2) by (cases "takeWhile isdigit t") simp_all
  then show ?thesis
    using rx_greedy_tail[OF assms(1), of Digit "Suc 0" 1 t 2 p g]
    by (simp add: take_length_dropWhile)
qed

lemma rx_label_some:
  assumes "newline \<notin> set t"
    and "length (takeWhile isspace t) \<le> k"
    and "takeWhile isdigit (dropWhile isspace t) \<noteq> []"
  shows "rx (Rep False Space 0 (Some k) # Grp 1 [Rep False Digit (Suc 0) None]
             # Grp 2 [Rep True Dot 0 None] # [Eol]) p t g
         = Some ((2, dropWhile isdigit (dropWhile isspace t))
                 # (1, takeWhile isdigit (dropWhile isspace t)) # g)"
  using assms
proof (induction t arbitrary: k p)
  case Nil
  then show ?case by simp
next
  case (Cons x xs)
  then have nl: "newline \<notin> set xs" and nlx: "newline \<notin> set (x # xs)" by auto
  let ?R = "Grp 1 [Rep False Digit (Suc 0) None] # Grp 2 [Rep True Dot 0 None] # [Eol]"
  show ?case
  proof (cases "isspace x")
    case False
    have d: "takeWhile isdigit (x # xs) \<noteq> []" using Cons.prems(3) False by simp
    have "rx (Rep False Space 0 (Some k) # ?R) p (x # xs) g = rx ?R p (x # xs) g"
      using False by simp
    also have "\<dots> = Some ((2, dropWhile isdigit (x # xs)) # (1, takeWhile isdigit (x # xs)) # g)"
      by (rule rx_digits_tail[OF nlx d])
    finally show ?thesis using False by simp
  next
    case True
    then obtain k' where k: "k = Suc k'" using Cons.prems(2) by (cases k) simp_all
    have "length (takeWhile isspace xs) \<le> k'" using Cons.prems(2) True k by simp
    moreover have "takeWhile isdigit (dropWhile isspace xs) \<noteq> []"
      using Cons.prems(3) True by simp
    ultimately show ?thesis
      using Cons.IH[OF nl, of k' "Some x"] True k by simp
  qed
qed

lemma re_match_fixedLabel_some:
  assumes "newline \<notin> set s"
    and "length (takeWhile isspace s) \<le> 4"
    and "takeWhile isdigit (dropWhile isspace s) \<noteq> []"
  shows "re_match re_fixedLabel s
         = Some [(2, dropWhile isdigit (dropWhile isspace s)),
                 (1, takeWhile isdigit (dropWhile isspace s))]"
  using rx_label_some[OF assms, of None "[]"] by (simp add: re_match_def re_fixedLabel_def)

text \<open>\<^verbatim>\<open>(\s*)(!.*?)$\<close> at a position.\<close>

lemma rx_comment_here:
  assumes "newline \<notin> set t"
  shows "rx (Rep False Space 0 None # Mark 2 t2
             # Grp 3 [Ch (Lit CHR ''!''), Rep True Dot 0 None] # [Eol]) p t g
         = (case dropWhile isspace t of
              [] \<Rightarrow> None
            | y # r \<Rightarrow>
                if y = CHR ''!''
                then Some ((3, y # r) # (2, take (length t2 - length (y # r)) t2) # g)
                else None)"
  using assms
proof (induction t arbitrary: p)
  case Nil
  then show ?case by simp
next
  case (Cons x xs)
  then have nl: "newline \<notin> set xs" by auto
  have sp: "isspace x \<Longrightarrow> x \<noteq> CHR ''!''" by (auto simp: isspace_def)
  show ?case
  proof (cases "isspace x")
    case True
    then show ?thesis using Cons.IH[OF nl, of "Some x"] sp
      by (auto split: list.splits option.splits)
  next
    case False
    then show ?thesis using nl by (simp add: rx_tail)
  qed
qed

lemma comment_here_eq:
  assumes "newline \<notin> set t"
  shows "rx (Rep False Space 0 None # Mark 2 t
             # Grp 3 [Ch (Lit CHR ''!''), Rep True Dot 0 None] # [Eol]) p t g
         = map_option (\<lambda>(w, c). (3, c) # (2, w) # g) (comment_here t)"
proof (cases "dropWhile isspace t")
  case Nil
  show ?thesis
    unfolding rx_comment_here[OF assms] comment_here_def Nil by simp
next
  case (Cons y r)
  have "take (length t - length (y # r)) t = takeWhile isspace t"
    using take_length_dropWhile[of t isspace] Cons by simp
  then show ?thesis
    unfolding rx_comment_here[OF assms] comment_here_def Cons by simp
qed

lemma rx_comment:
  assumes "newline \<notin> set t"
  shows "rx (Rep True Dot 0 None # Mark 1 (pre @ t) # Grp 2 [Rep False Space 0 None]
             # Grp 3 [Ch (Lit CHR ''!''), Rep True Dot 0 None] # [Eol]) p t g
         = map_option (\<lambda>(a, w, c). (3, c) # (2, w) # (1, pre @ a) # g) (split_comment t)"
  using assms
proof (induction t arbitrary: pre p)
  case Nil
  then show ?case using comment_here_eq[of "[]"] by (simp add: comment_here_def)
next
  case (Cons x xs)
  then have nl: "newline \<notin> set xs" and nlx: "newline \<notin> set (x # xs)" and x: "x \<noteq> newline"
    by auto
  show ?case
    using Cons.IH[OF nl, of "pre @ [x]" "Some x"] comment_here_eq[OF nlx, of p "(1, pre) # g"] x
    by (cases "comment_here (x # xs)"; cases "split_comment xs") auto
qed

lemma re_match_comment:
  assumes "newline \<notin> set s"
  shows "re_match re_comment s
         = map_option (\<lambda>(a, w, c). [(3, c), (2, w), (1, a)]) (split_comment s)"
  using rx_comment[OF assms, of "[]" None "[]"] by (simp add: re_match_def re_comment_def)

text \<open>\<^verbatim>\<open>(\d+\s+)(.*?)$\<close> and \<^verbatim>\<open>(&\s*)(.*?)$\<close>.\<close>

lemma rx_digits_space_tail:
  assumes "newline \<notin> set t"
  shows "rx (Rep False Digit lo None # Rep False Space (Suc 0) None # Mark n t0
             # Grp m [Rep True Dot 0 None] # [Eol]) p t g
         = (if lo \<le> length (takeWhile isdigit t)
               \<and> takeWhile isspace (dropWhile isdigit t) \<noteq> []
            then Some ((m, dropWhile isspace (dropWhile isdigit t))
                       # (n, take (length t0 - length (dropWhile isspace (dropWhile isdigit t))) t0)
                       # g)
            else None)"
  using assms
proof (induction t arbitrary: lo p)
  case Nil
  then show ?case by (cases lo) (simp_all add: rx_greedy_tail)
next
  case (Cons x xs)
  then have nl: "newline \<notin> set xs" and nlx: "newline \<notin> set (x # xs)" by auto
  have g: "rx (Rep False Space (Suc 0) None # Mark n t0 # Grp m [Rep True Dot 0 None] # [Eol])
             p (x # xs) g
           = (if isspace x
              then Some ((m, dropWhile isspace (x # xs))
                         # (n, take (length t0 - length (dropWhile isspace (x # xs))) t0) # g)
              else None)"
    using rx_greedy_tail[OF nlx, of Space "Suc 0" n t0 m p g] by simp
  show ?case
  proof (cases "isdigit x")
    case True
    then have ns: "\<not> isspace x" using space_not_digit by blast
    show ?thesis
    proof (cases lo)
      case 0
      then show ?thesis using True ns Cons.IH[OF nl, of 0 "Some x"] g by simp
    next
      case (Suc lo')
      then show ?thesis using True Cons.IH[OF nl, of lo' "Some x"] by simp
    qed
  next
    case False
    show ?thesis
    proof (cases lo)
      case 0
      then show ?thesis using False g by simp
    next
      case (Suc lo')
      then show ?thesis using False by simp
    qed
  qed
qed

lemma re_match_freeLabel:
  assumes "newline \<notin> set s"
  shows "re_match re_freeLabel s =
     (if takeWhile isdigit s \<noteq> [] \<and> takeWhile isspace (dropWhile isdigit s) \<noteq> []
      then Some [(2, dropWhile isspace (dropWhile isdigit s)),
                 (1, takeWhile isdigit s @ takeWhile isspace (dropWhile isdigit s))]
      else None)"
proof -
  have e: "take (length s - length (dropWhile isspace (dropWhile isdigit s))) s
      = takeWhile isdigit s @ takeWhile isspace (dropWhile isdigit s)"
  proof -
    have "s = (takeWhile isdigit s @ takeWhile isspace (dropWhile isdigit s))
                @ dropWhile isspace (dropWhile isdigit s)"
      by simp
    then show ?thesis
      by (metis add_diff_cancel_right' append_eq_conv_conj length_append)
  qed
  have l: "(Suc 0 \<le> length (takeWhile isdigit s)) = (takeWhile isdigit s \<noteq> [])"
    by (cases "takeWhile isdigit s") simp_all
  show ?thesis
    using rx_digits_space_tail[OF assms, of "Suc 0" 1 s 2 None "[]"]
    by (simp add: re_match_def re_freeLabel_def e l)
qed

lemma re_match_freeCont:
  assumes "newline \<notin> set s"
  shows "re_match re_freeCont s =
     (case s of
        [] \<Rightarrow> None
      | x # xs \<Rightarrow>
          if x = CHR ''&''
          then Some [(2, dropWhile isspace xs), (1, x # takeWhile isspace xs)]
          else None)"
proof (cases s)
  case Nil
  then show ?thesis by (simp add: re_match_def re_freeCont_def)
next
  case (Cons x xs)
  then have nl: "newline \<notin> set xs" using assms by simp
  have "take (Suc (length xs) - length (dropWhile isspace xs)) (x # xs) = x # takeWhile isspace xs"
  proof -
    have "length (dropWhile isspace xs) \<le> length xs" by (simp add: length_dropWhile_le)
    then have "Suc (length xs) - length (dropWhile isspace xs)
        = Suc (length xs - length (dropWhile isspace xs))"
      by arith
    then show ?thesis by (simp add: take_length_dropWhile)
  qed
  then show ?thesis
    using Cons rx_greedy_tail[OF nl, of Space 0 1 "x # xs" 2 "Some x" "[]"]
    by (cases "x = CHR ''&''") (simp_all add: re_match_def re_freeCont_def)
qed

section \<open>The line decomposer\<close>

lemma split_right_Some:
  "split_right t = Some (u, v) \<Longrightarrow>
   t = u @ v \<and> v \<noteq> [] \<and> list_all isspace v \<and> newline \<notin> set u"
proof (induction t arbitrary: u)
  case Nil
  then show ?case by simp
next
  case (Cons x xs)
  show ?case
  proof (cases "list_all isspace (x # xs)")
    case True
    with Cons.prems show ?thesis by auto
  next
    case False
    with Cons.prems obtain u' where "x \<noteq> newline" "split_right xs = Some (u', v)" "u = x # u'"
      by (auto split: if_splits)
    with Cons.IH[of u'] show ?thesis by simp
  qed
qed

lemma split_right_None:
  "split_right t = None \<Longrightarrow> newline \<notin> set (butlast t) \<Longrightarrow> newline \<notin> set t"
proof (induction t)
  case Nil
  then show ?case by simp
next
  case (Cons x xs)
  have na: "\<not> list_all isspace (x # xs)" using Cons.prems(1) by (auto split: if_splits)
  show ?case
  proof (cases "xs = []")
    case True
    with na have "\<not> isspace x" by simp
    then have "x \<noteq> newline" using newline_space by auto
    with True show ?thesis by simp
  next
    case False
    then have "butlast (x # xs) = x # butlast xs" by simp
    then have x: "x \<noteq> newline" and bx: "newline \<notin> set (butlast xs)"
      using Cons.prems(2) by auto
    have "split_right xs = None" using Cons.prems(1) na x by (simp split: if_splits)
    from Cons.IH[OF this bx] x show ?thesis by simp
  qed
qed

lemma stripRight_eq:
  "stripRight cl =
     (case split_right (line cl) of
        Some (u, v) \<Rightarrow> cl\<lparr>rightSpace := v, line := u\<rparr>
      | None \<Rightarrow> cl)"
  by (cases "split_right (line cl)") (auto simp: stripRight_def re_match_rightSpace group_def)

text \<open>What the first step leaves, in one form for both outcomes of the match.\<close>

lemma stripRight_new:
  "\<exists>u v. l = u @ v \<and> list_all isspace v
       \<and> (newline \<notin> set (butlast l) \<longrightarrow> newline \<notin> set u)
       \<and> stripRight (newCodeLine l ff) = (newCodeLine l ff)\<lparr>rightSpace := v, line := u\<rparr>"
proof (cases "split_right l")
  case None
  then have "newline \<notin> set (butlast l) \<longrightarrow> newline \<notin> set l"
    using split_right_None by blast
  moreover have "stripRight (newCodeLine l ff) = (newCodeLine l ff)\<lparr>rightSpace := [], line := l\<rparr>"
    using None by (simp add: stripRight_eq newCodeLine_def)
  ultimately show ?thesis by (intro exI[of _ l] exI[of _ "[]"]) simp
next
  case (Some a)
  then obtain u v where uv: "split_right l = Some (u, v)" by (cases a) auto
  from split_right_Some[OF uv] uv show ?thesis
    by (intro exI[of _ u] exI[of _ v]) (simp add: stripRight_eq newCodeLine_def)
qed

lemma stripLeft_eq:
  assumes "newline \<notin> set (line cl)" and "leftSpace cl = []"
  shows "stripLeft cl
         = cl\<lparr>leftSpace := takeWhile isspace (line cl), line := dropWhile isspace (line cl)\<rparr>"
proof (cases "takeWhile isspace (line cl) = []")
  case True
  then have "dropWhile isspace (line cl) = line cl"
    by (metis append_Nil takeWhile_dropWhile_id)
  with True assms show ?thesis
    by (simp add: stripLeft_def re_match_leftSpace)
next
  case False
  with assms show ?thesis
    by (simp add: stripLeft_def re_match_leftSpace group_def)
qed

lemma comment_here_Some: "comment_here t = Some (w, c) \<Longrightarrow> t = w @ c"
  by (auto simp: comment_here_def split: list.splits if_splits)

lemma split_comment_Some: "split_comment t = Some (a, w, c) \<Longrightarrow> t = a @ w @ c"
proof (induction t arbitrary: a)
  case Nil
  then show ?case by simp
next
  case (Cons x xs)
  show ?case
  proof (cases "comment_here (x # xs)")
    case None
    with Cons.prems obtain a' where "split_comment xs = Some (a', w, c)" "a = x # a'"
      by auto
    with Cons.IH[of a'] show ?thesis by simp
  next
    case (Some wc)
    with Cons.prems have "comment_here (x # xs) = Some (w, c)" "a = []"
      by (cases wc; simp)+
    with comment_here_Some[of "x # xs" w c] show ?thesis by simp
  qed
qed

lemma freeComment_eq:
  assumes "newline \<notin> set (line cl)" and "midSpace cl = []" and "comment cl = []"
  shows "\<exists>a w c. line cl = a @ w @ c
           \<and> freeComment cl = cl\<lparr>midSpace := w, comment := c, line := a\<rparr>"
proof (cases "split_comment (line cl)")
  case None
  then have "freeComment cl = cl\<lparr>midSpace := [], comment := [], line := line cl\<rparr>"
    using assms by (simp add: freeComment_def re_match_comment)
  then show ?thesis by (intro exI[of _ "line cl"] exI[of _ "[]"]) simp
next
  case (Some r)
  then obtain a w c where s: "split_comment (line cl) = Some (a, w, c)" by (cases r) auto
  then have "freeComment cl = cl\<lparr>midSpace := w, comment := c, line := a\<rparr>"
    using assms by (simp add: freeComment_def re_match_comment group_def)
  with split_comment_Some[OF s] show ?thesis by blast
qed

lemma freeLabelStep_eq:
  assumes "newline \<notin> set (line cl)" and "freeLabel cl = []"
  shows "\<exists>b r. line cl = b @ r \<and> freeLabelStep cl = cl\<lparr>freeLabel := b, line := r\<rparr>"
proof (cases "takeWhile isdigit (line cl) \<noteq> []
              \<and> takeWhile isspace (dropWhile isdigit (line cl)) \<noteq> []")
  case True
  then have "re_match re_freeLabel (line cl)
      = Some [(2, dropWhile isspace (dropWhile isdigit (line cl))),
              (1, takeWhile isdigit (line cl) @ takeWhile isspace (dropWhile isdigit (line cl)))]"
    by (auto simp: re_match_freeLabel[OF assms(1)])
  then have "freeLabelStep cl
      = cl\<lparr>freeLabel := takeWhile isdigit (line cl) @ takeWhile isspace (dropWhile isdigit (line cl)),
           line := dropWhile isspace (dropWhile isdigit (line cl))\<rparr>"
    by (simp add: freeLabelStep_def group_def)
  then show ?thesis
    by (intro exI[of _ "takeWhile isdigit (line cl) @ takeWhile isspace (dropWhile isdigit (line cl))"]
        exI[of _ "dropWhile isspace (dropWhile isdigit (line cl))"]) simp
next
  case False
  then have "re_match re_freeLabel (line cl) = None"
    by (auto simp: re_match_freeLabel[OF assms(1)])
  then have "freeLabelStep cl = cl\<lparr>freeLabel := [], line := line cl\<rparr>"
    using assms by (simp add: freeLabelStep_def)
  then show ?thesis by (intro exI[of _ "[]"] exI[of _ "line cl"]) simp
qed

lemma freeContStep_eq:
  assumes "newline \<notin> set (line cl)" and "freeContBeg cl = []"
  shows "\<exists>b r ic. line cl = b @ r
           \<and> freeContStep cl = cl\<lparr>freeContBeg := b, isContinuation := ic, line := r\<rparr>"
proof (cases "line cl")
  case Nil
  then have "freeContStep cl = cl\<lparr>freeContBeg := [], isContinuation := isContinuation cl, line := []\<rparr>"
    using assms by (simp add: freeContStep_def re_match_freeCont)
  with Nil show ?thesis by (intro exI[of _ "[]"] exI[of _ "[]"] exI[of _ "isContinuation cl"]) simp
next
  case (Cons x xs)
  show ?thesis
  proof (cases "x = CHR ''&''")
    case True
    then have "freeContStep cl
        = cl\<lparr>freeContBeg := x # takeWhile isspace xs, isContinuation := True,
             line := dropWhile isspace xs\<rparr>"
      using assms Cons by (simp add: freeContStep_def re_match_freeCont group_def)
    with Cons show ?thesis
      by (intro exI[of _ "x # takeWhile isspace xs"] exI[of _ "dropWhile isspace xs"]
          exI[of _ True]) simp
  next
    case False
    then have "freeContStep cl
        = cl\<lparr>freeContBeg := [], isContinuation := isContinuation cl, line := line cl\<rparr>"
      using assms Cons by (simp add: freeContStep_def re_match_freeCont)
    then show ?thesis
      by (intro exI[of _ "[]"] exI[of _ "line cl"] exI[of _ "isContinuation cl"]) simp
  qed
qed

lemma freeChecks_eq:
  assumes "newline \<notin> set (line cl)" and "freeLabel cl = []" and "freeContBeg cl = []"
  shows "\<exists>a b r ic. line cl = a @ b @ r
           \<and> freeChecks cl = cl\<lparr>freeLabel := a, freeContBeg := b, isContinuation := ic, line := r\<rparr>"
proof (cases "isFreeForm cl")
  case False
  then have "freeChecks cl
      = cl\<lparr>freeLabel := [], freeContBeg := [], isContinuation := isContinuation cl, line := line cl\<rparr>"
    using assms by (simp add: freeChecks_def)
  then show ?thesis
    by (intro exI[of _ "[]"] exI[of _ "[]"] exI[of _ "line cl"] exI[of _ "isContinuation cl"]) simp
next
  case True
  obtain a r1 where 1: "line cl = a @ r1" "freeLabelStep cl = cl\<lparr>freeLabel := a, line := r1\<rparr>"
    using freeLabelStep_eq[OF assms(1,2)] by blast
  let ?c1 = "cl\<lparr>freeLabel := a, line := r1\<rparr>"
  have "newline \<notin> set (line ?c1)" using assms(1) 1(1) by simp
  moreover have "freeContBeg ?c1 = []" using assms(3) by simp
  ultimately obtain b r ic where 2: "line ?c1 = b @ r"
      "freeContStep ?c1 = ?c1\<lparr>freeContBeg := b, isContinuation := ic, line := r\<rparr>"
    using freeContStep_eq[of ?c1] by blast
  have "freeChecks cl = cl\<lparr>freeLabel := a, freeContBeg := b, isContinuation := ic, line := r\<rparr>"
    using True 1 2 by (simp add: freeChecks_def)
  moreover have "line cl = a @ b @ r" using 1 2 by simp
  ultimately show ?thesis by blast
qed

text \<open>Steps 5 to 8 of the parse take the remaining text apart without losing any of it.\<close>

lemma tail_roundtrip:
  assumes "newline \<notin> set (line cl)"
    and "leftSpace cl = []" and "freeLabel cl = []" and "freeContBeg cl = []"
    and "freeContEnd cl = []" and "midSpace cl = []" and "comment cl = []"
  shows "buildFullLine (finish (freeChecks (freeComment (stripLeft cl)))) = assemble cl"
proof -
  let ?w = "line cl"
  let ?c1 = "cl\<lparr>leftSpace := takeWhile isspace ?w, line := dropWhile isspace ?w\<rparr>"
  have c1: "stripLeft cl = ?c1" using stripLeft_eq[OF assms(1,2)] .
  have n1: "newline \<notin> set (line ?c1)" using assms(1) by (auto dest: set_dropWhileD)
  obtain a w c where 2: "line ?c1 = a @ w @ c"
      "freeComment ?c1 = ?c1\<lparr>midSpace := w, comment := c, line := a\<rparr>"
    using freeComment_eq[OF n1] assms(6,7) by auto
  let ?c2 = "?c1\<lparr>midSpace := w, comment := c, line := a\<rparr>"
  have n2: "newline \<notin> set (line ?c2)" using n1 2(1) by simp
  obtain b d r ic where 3: "line ?c2 = b @ d @ r"
      "freeChecks ?c2 = ?c2\<lparr>freeLabel := b, freeContBeg := d, isContinuation := ic, line := r\<rparr>"
    using freeChecks_eq[OF n2] assms(3,4) by auto
  have w: "?w = takeWhile isspace ?w @ b @ d @ r @ w @ c"
  proof -
    have "dropWhile isspace ?w = (b @ d @ r) @ w @ c" using 2(1) 3(1) by simp
    then show ?thesis by (metis append_assoc takeWhile_dropWhile_id)
  qed
  have "finish (freeChecks (freeComment (stripLeft cl)))
      = finish (?c2\<lparr>freeLabel := b, freeContBeg := d, isContinuation := ic, line := r\<rparr>)"
    by (simp only: c1 2(2) 3(2))
  then have "buildFullLine (finish (freeChecks (freeComment (stripLeft cl))))
      = preProc cl @ fixedComment cl @ fixedLabel cl @ fixedCont cl
         @ takeWhile isspace ?w @ b @ d @ r @ w @ c @ rightSpace cl"
    using assms(5) by (simp add: finish_def buildFullLine_def)
  also have "\<dots> = preProc cl @ fixedComment cl @ fixedLabel cl @ fixedCont cl
         @ ?w @ rightSpace cl"
    using arg_cong[OF w, of "\<lambda>z. preProc cl @ fixedComment cl @ fixedLabel cl @ fixedCont cl
         @ z @ rightSpace cl"] by simp
  also have "\<dots> = assemble cl"
    using assms(2-7) by (simp add: assemble_def)
  finally show ?thesis .
qed

lemma newCodeLine_sel [simp]:
  "isFreeForm (newCodeLine l ff) = ff" "remarks (newCodeLine l ff) = []"
  "line (newCodeLine l ff) = l" "origCodeLength (newCodeLine l ff) = 0"
  "preProc (newCodeLine l ff) = []" "leftSpace (newCodeLine l ff) = []"
  "code (newCodeLine l ff) = []" "midSpace (newCodeLine l ff) = []"
  "comment (newCodeLine l ff) = []" "rightSpace (newCodeLine l ff) = []"
  "fixedComment (newCodeLine l ff) = []" "fixedLabel (newCodeLine l ff) = []"
  "fixedCont (newCodeLine l ff) = []" "freeLabel (newCodeLine l ff) = []"
  "freeContBeg (newCodeLine l ff) = []" "freeContEnd (newCodeLine l ff) = []"
  "isContinued (newCodeLine l ff) = False" "isContinuation (newCodeLine l ff) = False"
  by (simp_all add: newCodeLine_def)

lemma parseLine_total: "\<exists>r. parseLine cl = Inr r"
  by (simp add: parseLine_def fixedColumns_def index_def Let_def split: option.splits)

lemma parseAll_total: "\<exists>rs. parseAll cls = Inr rs \<and> length rs = length cls"
proof (induction cls)
  case Nil
  then show ?case by simp
next
  case (Cons cl cls)
  obtain r where "parseLine cl = Inr r" using parseLine_total by blast
  with Cons show ?case by auto
qed

lemma length_identifyContinuations: "length (identifyContinuations ls) = length ls"
  by (simp add: identifyContinuations_def length_contiLoop)

lemma tail_fixedCont:
  "fixedCont (finish (freeChecks (freeComment (stripLeft cl)))) = fixedCont cl"
  by (simp add: finish_def freeChecks_def freeContStep_def freeLabelStep_def freeComment_def
      stripLeft_def split: option.splits)

lemma tail_isContinuation:
  "isContinuation cl \<Longrightarrow> isContinuation (finish (freeChecks (freeComment (stripLeft cl))))"
  by (simp add: finish_def freeChecks_def freeContStep_def freeLabelStep_def freeComment_def
      stripLeft_def split: option.splits)

lemma tail_rightSpace:
  "rightSpace (finish (freeChecks (freeComment (stripLeft cl)))) = rightSpace cl"
  by (simp add: finish_def freeChecks_def freeContStep_def freeLabelStep_def freeComment_def
      stripLeft_def split: option.splits)

lemma label_strip:
  assumes "list_all isspace v"
  shows "startsWithLabel (u @ v) = startsWithLabel u"
    and "startsWithLabel u \<Longrightarrow> dropWhile isspace (u @ v) = dropWhile isspace u @ v"
    and "startsWithLabel u \<Longrightarrow> takeWhile isspace (u @ v) = takeWhile isspace u"
proof -
  have all: "list_all isspace u \<Longrightarrow> dropWhile isspace (u @ v) = [] \<and> dropWhile isspace u = []"
    using assms by (simp add: list_all_iff)
  have some: "\<not> list_all isspace u \<Longrightarrow>
      takeWhile isspace (u @ v) = takeWhile isspace u
      \<and> dropWhile isspace (u @ v) = dropWhile isspace u @ v
      \<and> dropWhile isspace u \<noteq> []"
    by (auto simp: list_all_iff takeWhile_append1 dropWhile_append1)
  have hd: "d \<noteq> [] \<Longrightarrow> (takeWhile isdigit (d @ v) \<noteq> []) = (takeWhile isdigit d \<noteq> [])" for d
    by (cases d) auto
  show "startsWithLabel (u @ v) = startsWithLabel u"
  proof (cases "list_all isspace u")
    case True
    from all[OF True] have "dropWhile isspace (u @ v) = []" "dropWhile isspace u = []"
      by blast+
    then show ?thesis unfolding startsWithLabel_def by (simp only: takeWhile.simps) simp
  next
    case False
    with some hd[of "dropWhile isspace u"] show ?thesis by (simp add: startsWithLabel_def)
  qed
  assume sl: "startsWithLabel u"
  have "\<not> list_all isspace u"
  proof
    assume "list_all isspace u"
    from all[OF this] have "dropWhile isspace u = []" by blast
    then have "takeWhile isdigit (dropWhile isspace u) = []" by (simp only: takeWhile.simps)
    with sl show False unfolding startsWithLabel_def by blast
  qed
  with some show "dropWhile isspace (u @ v) = dropWhile isspace u @ v"
    and "takeWhile isspace (u @ v) = takeWhile isspace u" by simp_all
qed

lemma fixedColumns_label:
  assumes "newline \<notin> set (line cl)" and "startsWithLabel (line cl)"
  shows "fixedColumns cl
         = Inr (cl\<lparr>fixedLabel := takeWhile isdigit (dropWhile isspace (line cl)),
                   line := dropWhile isdigit (dropWhile isspace (line cl))\<rparr>)"
  using assms re_match_fixedLabel_some[of "line cl"]
  by (simp add: fixedColumns_def startsWithLabel_def group_def)

lemma fixedColumns_nolabel:
  assumes "\<not> startsWithLabel (line cl)"
  shows "fixedColumns cl
         = Inr (if 5 < length (line cl) \<and> line cl ! 0 \<noteq> tab
                   \<and> line cl ! 5 \<notin> set [CHR '' '', CHR ''0'']
                then cl\<lparr>fixedCont := take 6 (line cl), isContinuation := True,
                        line := drop 6 (line cl)\<rparr>
                else cl)"
  using assms re_match_fixedLabel_none[of "line cl"]
  by (simp add: fixedColumns_def startsWithLabel_def index_def)

lemma parseLine_rightSpace:
  assumes "re_match re_rightSpace l = None"
  shows "\<exists>r. parseLine (newCodeLine l ff) = Inr r \<and> rightSpace r = []"
proof -
  have s: "stripRight (newCodeLine l ff) = newCodeLine l ff"
    using assms by (simp add: stripRight_def)
  have f: "fixedColumns c = Inr r \<Longrightarrow> rightSpace r = rightSpace c" for c r
    by (auto simp: fixedColumns_def index_def split: option.splits if_splits)
  obtain r where r: "parseLine (newCodeLine l ff) = Inr r" using parseLine_total by blast
  then have "rightSpace r = []"
    unfolding parseLine_def s
    by (auto simp: Let_def index_def tail_rightSpace split: if_splits sum.splits dest!: f)
  with r show ?thesis by blast
qed

text \<open>
  Claim C7. For every input string and either layout, \<open>parseLine\<close> returns a line and
  raises no error, and so does the parse of a whole file followed by
  \<open>identifyContinuations\<close>, which keeps every line. A step whose pattern does not match
  leaves the line as it was, so that the region of that step stays empty.
\<close>

theorem parse_never_raises:
  "(\<exists>r. parseLine (newCodeLine l ff) = Inr r
        \<and> (re_match re_rightSpace l = None \<longrightarrow> rightSpace r = []))
   \<and> (\<exists>rs. analyse content ff = Inr rs \<and> length rs = length content)
   \<and> (re_match re_rightSpace (line cl) = None \<longrightarrow> stripRight cl = cl)
   \<and> (re_match re_fixedLabel (line cl) = None \<longrightarrow>
         (\<exists>r. fixedColumns cl = Inr r \<and> fixedLabel r = fixedLabel cl))
   \<and> (re_match re_leftSpace (line cl) = None \<longrightarrow> stripLeft cl = cl)
   \<and> (re_match re_comment (line cl) = None \<longrightarrow> freeComment cl = cl)
   \<and> (re_match re_freeLabel (line cl) = None \<longrightarrow> freeLabelStep cl = cl)
   \<and> (re_match re_freeCont (line cl) = None \<longrightarrow> freeContStep cl = cl)"
proof -
  have 1: "\<exists>r. parseLine (newCodeLine l ff) = Inr r
        \<and> (re_match re_rightSpace l = None \<longrightarrow> rightSpace r = [])"
    using parseLine_total[of "newCodeLine l ff"] parseLine_rightSpace[of l ff] by auto
  obtain ps where ps: "parseAll (map (\<lambda>l. newCodeLine l ff) content) = Inr ps"
      "length ps = length (map (\<lambda>l. newCodeLine l ff) content)"
    using parseAll_total by blast
  then have 2: "\<exists>rs. analyse content ff = Inr rs \<and> length rs = length content"
    by (simp add: analyse_def length_identifyContinuations)
  have 3: "re_match re_fixedLabel (line cl) = None \<longrightarrow>
         (\<exists>r. fixedColumns cl = Inr r \<and> fixedLabel r = fixedLabel cl)"
    by (simp add: fixedColumns_def index_def)
  show ?thesis
    using 1 2 3
    by (simp add: stripRight_def stripLeft_def freeComment_def freeLabelStep_def freeContStep_def)
qed

theorem parse_never_raises_witness:
  "re_match re_rightSpace ''x'' = None
   \<and> parseLine (newCodeLine ''x'' True) = Inr ((newCodeLine [] True)\<lparr>code := ''x'', origCodeLength := 1\<rparr>)
   \<and> analyse [''x''] True = Inr [(newCodeLine [] True)\<lparr>code := ''x'', origCodeLength := 1\<rparr>]
   \<and> stripLeft (newCodeLine ''x'' True) = newCodeLine ''x'' True"
  using parse_never_raises[of "''x''" True "[''x'']" "newCodeLine ''x'' True"]
  by (simp add: parse_defs char_defs analyse_def identifyContinuations_def hasCode_def)

text \<open>
  Claim C4, as the code has it. A fixed-form line that has a character other than
  whitespace in column 6 or later (so that at least 6 characters are left once the trailing
  whitespace is stripped), whose first character is none of \<^verbatim>\<open>#\<close>, \<^verbatim>\<open>c\<close>, \<^verbatim>\<open>C\<close>,
  \<^verbatim>\<open>*\<close>, \<^verbatim>\<open>!\<close> and the tab, which does not begin with at most four whitespace
  characters followed by a digit, and whose column 6 is neither a blank nor \<^verbatim>\<open>0\<close>, is
  parsed with \<open>isContinuation\<close> true and its first 6 characters as the continuation marker.
\<close>

theorem parseLine_continuation:
  assumes "\<not> list_all isspace (drop 5 l)"
    and "l ! 0 \<notin> set [CHR ''#'', CHR ''c'', CHR ''C'', CHR ''*'', CHR ''!'', tab]"
    and "l ! 5 \<notin> set [CHR '' '', CHR ''0'']"
    and "\<not> startsWithLabel l"
  shows "\<exists>r. parseLine (newCodeLine l False) = Inr r \<and> isContinuation r
           \<and> fixedCont r = take 6 l"
proof -
  obtain u v where uv: "l = u @ v" "list_all isspace v"
      "stripRight (newCodeLine l False) = (newCodeLine l False)\<lparr>rightSpace := v, line := u\<rparr>"
    using stripRight_new[of l False] by blast
  let ?cl = "(newCodeLine l False)\<lparr>rightSpace := v, line := u\<rparr>"
  have len: "5 < length u"
  proof (rule ccontr)
    assume "\<not> 5 < length u"
    then have "drop 5 l = drop (5 - length u) v" using uv(1) by simp
    moreover have "list_all isspace (drop (5 - length u) v)"
      using uv(2) by (auto simp: list_all_iff dest: in_set_dropD)
    ultimately show False using assms(1) by simp
  qed
  then have u0: "u ! 0 = l ! 0" and u5: "u ! 5 = l ! 5" and t6: "take 6 u = take 6 l"
    using uv(1) by (auto simp: nth_append)
  have nl: "\<not> startsWithLabel u" using assms(4) label_strip(1)[OF uv(2), of u] uv(1) by simp
  have fc: "fixedColumns ?cl
      = Inr (?cl\<lparr>fixedCont := take 6 l, isContinuation := True, line := drop 6 u\<rparr>)"
    using fixedColumns_nolabel[of ?cl] nl len u0 u5 t6 assms(2,3) by simp
  let ?r = "finish (freeChecks (freeComment (stripLeft
      (?cl\<lparr>fixedCont := take 6 l, isContinuation := True, line := drop 6 u\<rparr>))))"
  have une: "u \<noteq> []" using len by auto
  have "parseLine (newCodeLine l False) = Inr ?r"
    unfolding parseLine_def uv(3) using une len u0 assms(2) fc
    by (simp add: index_def Let_def)
  moreover have "isContinuation ?r" by (rule tail_isContinuation) simp
  moreover have "fixedCont ?r = take 6 l" by (simp add: tail_fixedCont)
  ultimately show ?thesis by blast
qed

theorem parseLine_continuation_witness:
  "parseLine (newCodeLine (''     &  + 2'' @ [newline]) False)
     = Inr ((newCodeLine [] False)\<lparr>fixedCont := ''     &'', leftSpace := ''  '', code := ''+ 2'',
               origCodeLength := 3, rightSpace := [newline], isContinuation := True\<rparr>)"
  using parseLine_continuation[of "''     &  + 2'' @ [newline]"]
  by (simp add: parse_defs char_defs startsWithLabel_def)

text \<open>
  The claim as it is written fails on a comment line: the check of the first column returns
  before the continuation column is looked at. A statement label and a preprocessor line
  come first in the same way.
\<close>

theorem parseLine_comment_counterexample:
  "6 \<le> length (''C this is a note'' @ [newline])
   \<and> (''C this is a note'' @ [newline]) ! 0 \<noteq> tab
   \<and> (''C this is a note'' @ [newline]) ! 5 \<noteq> CHR '' ''
   \<and> (''C this is a note'' @ [newline]) ! 5 \<noteq> CHR ''0''
   \<and> parseLine (newCodeLine (''C this is a note'' @ [newline]) False)
       = Inr ((newCodeLine ''C this is a note'' False)
                \<lparr>fixedComment := ''C this is a note'', rightSpace := [newline]\<rparr>)
   \<and> \<not> isContinuation ((newCodeLine ''C this is a note'' False)
                \<lparr>fixedComment := ''C this is a note'', rightSpace := [newline]\<rparr>)
   \<and> fixedCont ((newCodeLine ''C this is a note'' False)
                \<lparr>fixedComment := ''C this is a note'', rightSpace := [newline]\<rparr>) = []"
  by (simp add: parse_defs char_defs)

lemma parseLine_label_not_continuation:
  "parseLine (newCodeLine (''  100X = 1'' @ [newline]) False)
     = Inr ((newCodeLine [] False)\<lparr>fixedLabel := ''100'', code := ''X = 1'', origCodeLength := 5,
               rightSpace := [newline]\<rparr>)"
  by (simp add: parse_defs char_defs)

lemma parseLine_preproc_not_continuation:
  "parseLine (newCodeLine (''#define X'' @ [newline]) False)
     = Inr ((newCodeLine ''#define X'' False)\<lparr>preProc := ''#define X'', rightSpace := [newline]\<rparr>)"
  by (simp add: parse_defs char_defs)

lemma not_space_marks:
  "x \<in> set [CHR ''#'', CHR ''c'', CHR ''C'', CHR ''*'', CHR ''!''] \<Longrightarrow> \<not> isspace x"
  by (auto simp: isspace_def)

text \<open>
  What parsing and building again yields for a line as \<^verbatim>\<open>readlines()\<close> gives it (no
  newline but possibly the last character): the line itself, except in fixed form when
  the line begins with one to four whitespace characters followed by a digit; the label
  pattern matches that whitespace without capturing it.
\<close>

lemma parse_build_exact:
  assumes "newline \<notin> set (butlast l)"
  shows "\<exists>r. parseLine (newCodeLine l ff) = Inr r
           \<and> buildFullLine r
               = (if \<not> ff \<and> startsWithLabel l \<and> takeWhile isspace l \<noteq> []
                  then dropWhile isspace l else l)"
proof -
  obtain u v where uv: "l = u @ v" "list_all isspace v" "newline \<notin> set u"
      "stripRight (newCodeLine l ff) = (newCodeLine l ff)\<lparr>rightSpace := v, line := u\<rparr>"
    using stripRight_new[of l ff] assms by blast
  let ?cl = "(newCodeLine l ff)\<lparr>rightSpace := v, line := u\<rparr>"
  let ?goal = "\<lambda>r. buildFullLine r
               = (if \<not> ff \<and> startsWithLabel l \<and> takeWhile isspace l \<noteq> []
                  then dropWhile isspace l else l)"
  have tail: "buildFullLine (finish (freeChecks (freeComment (stripLeft c)))) = assemble c"
    if "newline \<notin> set (line c)" "leftSpace c = []" "freeLabel c = []" "freeContBeg c = []"
       "freeContEnd c = []" "midSpace c = []" "comment c = []" for c
    using that by (rule tail_roundtrip)
  show ?thesis
  proof (cases u)
    case Nil
    then have "parseLine (newCodeLine l ff) = Inr ?cl"
      unfolding parseLine_def uv(4) by (simp add: Let_def)
    moreover have "buildFullLine ?cl = l" using Nil uv(1) by (simp add: buildFullLine_def)
    moreover have "\<not> startsWithLabel l"
    proof -
      have "dropWhile isspace l = []" using Nil uv(1,2) by (simp add: list_all_iff)
      then have "takeWhile isdigit (dropWhile isspace l) = []" by (simp only: takeWhile.simps)
      then show ?thesis unfolding startsWithLabel_def by blast
    qed
    ultimately show ?thesis by simp
  next
    case (Cons x xs)
    then have ix: "index u 0 = Inr x" and une: "u \<noteq> []" by (simp_all add: index_def)
    have first: "\<not> isspace x \<Longrightarrow> takeWhile isspace l = []" using Cons uv(1) by simp
    show ?thesis
    proof (cases "x = CHR ''#''")
      case True
      then have "parseLine (newCodeLine l ff) = Inr (?cl\<lparr>preProc := u\<rparr>)"
        unfolding parseLine_def uv(4) using ix une by (simp add: Let_def)
      moreover have "buildFullLine (?cl\<lparr>preProc := u\<rparr>) = l"
        using uv(1) by (simp add: buildFullLine_def)
      moreover have "takeWhile isspace l = []" using first True not_space_marks[of x] by simp
      ultimately show ?thesis by simp
    next
      case nh: False
      show ?thesis
      proof (cases ff)
        case True
        then have "parseLine (newCodeLine l ff)
            = Inr (finish (freeChecks (freeComment (stripLeft ?cl))))"
          unfolding parseLine_def uv(4) using ix une nh by (simp add: Let_def)
        moreover have "buildFullLine (finish (freeChecks (freeComment (stripLeft ?cl)))) = l"
          using tail[of ?cl] uv(1,3) by (simp add: assemble_def)
        ultimately show ?thesis using True by simp
      next
        case fixed: False
        show ?thesis
        proof (cases "x \<in> set [CHR ''c'', CHR ''C'', CHR ''*'', CHR ''!'']")
          case True
          then have "parseLine (newCodeLine l ff) = Inr (?cl\<lparr>fixedComment := u\<rparr>)"
            unfolding parseLine_def uv(4) using ix une nh fixed by (simp add: Let_def)
          moreover have "buildFullLine (?cl\<lparr>fixedComment := u\<rparr>) = l"
            using uv(1) by (simp add: buildFullLine_def)
          moreover have "takeWhile isspace l = []"
            using first True not_space_marks[of x] by simp
          ultimately show ?thesis by simp
        next
          case nc: False
          have pl: "parseLine (newCodeLine l ff)
              = (case fixedColumns ?cl of
                   Inl e \<Rightarrow> Inl e
                 | Inr cl' \<Rightarrow> Inr (finish (freeChecks (freeComment (stripLeft cl')))))"
            unfolding parseLine_def uv(4) using ix une nh fixed nc by (simp add: Let_def)
          show ?thesis
          proof (cases "startsWithLabel u")
            case True
            let ?c = "?cl\<lparr>fixedLabel := takeWhile isdigit (dropWhile isspace u),
                          line := dropWhile isdigit (dropWhile isspace u)\<rparr>"
            have "fixedColumns ?cl = Inr ?c"
              using fixedColumns_label[of ?cl] uv(3) True by simp
            then have p: "parseLine (newCodeLine l ff)
                = Inr (finish (freeChecks (freeComment (stripLeft ?c))))"
              using pl by simp
            have "newline \<notin> set (line ?c)"
              using uv(3) by (auto dest!: set_dropWhileD)
            then have "buildFullLine (finish (freeChecks (freeComment (stripLeft ?c))))
                = assemble ?c"
              by (intro tail) simp_all
            also have "\<dots> = dropWhile isspace u @ v" by (simp add: assemble_def)
            finally have b: "buildFullLine (finish (freeChecks (freeComment (stripLeft ?c))))
                = dropWhile isspace u @ v" .
            have sl: "startsWithLabel l" using True label_strip(1)[OF uv(2), of u] uv(1) by simp
            have d: "dropWhile isspace l = dropWhile isspace u @ v"
              using label_strip(2)[OF uv(2) True] uv(1) by simp
            have t: "takeWhile isspace l = takeWhile isspace u"
              using label_strip(3)[OF uv(2) True] uv(1) by simp
            have "takeWhile isspace l = [] \<Longrightarrow> dropWhile isspace u @ v = l"
              using t uv(1) by (metis append_Nil takeWhile_dropWhile_id)
            then show ?thesis using p b sl d fixed by auto
          next
            case False
            let ?c = "if 5 < length u \<and> u ! 0 \<noteq> tab \<and> u ! 5 \<notin> set [CHR '' '', CHR ''0'']
                      then ?cl\<lparr>fixedCont := take 6 u, isContinuation := True, line := drop 6 u\<rparr>
                      else ?cl"
            have "fixedColumns ?cl = Inr ?c"
              using fixedColumns_nolabel[of ?cl] False by simp
            then have p: "parseLine (newCodeLine l ff)
                = Inr (finish (freeChecks (freeComment (stripLeft ?c))))"
              using pl by simp
            have "newline \<notin> set (line ?c)"
              using uv(3) by (auto dest: in_set_dropD)
            then have "buildFullLine (finish (freeChecks (freeComment (stripLeft ?c))))
                = assemble ?c"
              by (intro tail) simp_all
            also have "\<dots> = l" using uv(1) by (simp add: assemble_def)
            finally have b: "buildFullLine (finish (freeChecks (freeComment (stripLeft ?c)))) = l" .
            have "\<not> startsWithLabel l"
              using False label_strip(1)[OF uv(2), of u] uv(1) by simp
            then show ?thesis using p b by auto
          qed
        qed
      qed
    qed
  qed
qed

text \<open>
  So parsing a line as \<^verbatim>\<open>readlines()\<close> gives it and building the full line again
  yields the line itself in free form, and in fixed form whenever the line does not begin
  with whitespace followed by a statement label.
\<close>

lemma parse_build_identity:
  assumes "newline \<notin> set (butlast l)"
    and "ff \<or> \<not> (startsWithLabel l \<and> takeWhile isspace l \<noteq> [])"
  shows "\<exists>r. parseLine (newCodeLine l ff) = Inr r \<and> buildFullLine r = l"
  using parse_build_exact[OF assms(1), of ff] assms(2) by auto

lemma parse_build_identity_examples:
  "newline \<notin> set (butlast (''  10 & x = 1  ! c '' @ [newline]))
   \<and> parseLine (newCodeLine (''  10 & x = 1  ! c '' @ [newline]) True)
       = Inr ((newCodeLine [] True)\<lparr>leftSpace := ''  '', freeLabel := ''10 '', freeContBeg := ''& '',
                code := ''x = 1'', origCodeLength := 5, midSpace := ''  '', comment := ''! c'',
                rightSpace := '' '' @ [newline], isContinuation := True\<rparr>)
   \<and> buildFullLine ((newCodeLine [] True)\<lparr>leftSpace := ''  '', freeLabel := ''10 '', freeContBeg := ''& '',
                code := ''x = 1'', origCodeLength := 5, midSpace := ''  '', comment := ''! c'',
                rightSpace := '' '' @ [newline], isContinuation := True\<rparr>)
       = ''  10 & x = 1  ! c '' @ [newline]
   \<and> \<not> startsWithLabel (''      IF(X.GT.0)THEN'' @ [newline])
   \<and> parseLine (newCodeLine (''      IF(X.GT.0)THEN'' @ [newline]) False)
       = Inr ((newCodeLine [] False)\<lparr>leftSpace := ''      '', code := ''IF(X.GT.0)THEN'',
                origCodeLength := 14, rightSpace := [newline]\<rparr>)
   \<and> buildFullLine ((newCodeLine [] False)\<lparr>leftSpace := ''      '', code := ''IF(X.GT.0)THEN'',
                origCodeLength := 14, rightSpace := [newline]\<rparr>)
       = ''      IF(X.GT.0)THEN'' @ [newline]"
  using parse_build_identity[of "''  10 & x = 1  ! c '' @ [newline]" True]
    parse_build_identity[of "''      IF(X.GT.0)THEN'' @ [newline]" False]
  by (simp add: parse_defs char_defs buildFullLine_def startsWithLabel_def)

text \<open>
  Claim C1. Parsing a line and building the full line again should yield the line itself:
  every step of \<open>parseLine\<close> stores what it takes from the text in a region, and
  \<open>buildFullLine\<close> puts the regions together again. The label step of fixed form does
  not: \<^verbatim>\<open>\s{0,4}(\d+)(.*?)$\<close> matches the whitespace before the label outside of any
  group, no region receives it, and the line is rebuilt without it. Here the two blanks
  before the label \<^verbatim>\<open>10\<close> are lost.
\<close>

theorem parse_build_indented_label:
  "parseLine (newCodeLine (''  10  CONTINUE'' @ [newline]) False)
     = Inr ((newCodeLine [] False)\<lparr>fixedLabel := ''10'', leftSpace := ''  '', code := ''CONTINUE'',
               origCodeLength := 8, rightSpace := [newline]\<rparr>)
   \<and> buildFullLine ((newCodeLine [] False)\<lparr>fixedLabel := ''10'', leftSpace := ''  '',
               code := ''CONTINUE'', origCodeLength := 8, rightSpace := [newline]\<rparr>)
       = ''10  CONTINUE'' @ [newline]
   \<and> ''10  CONTINUE'' @ [newline] \<noteq> ''  10  CONTINUE'' @ [newline]"
  by (simp add: parse_defs char_defs buildFullLine_def)

text \<open>
  A string with a newline inside is no line of a file; on such a string the final newline
  can be lost, since \<^verbatim>\<open>$\<close> also matches just before it.
\<close>

lemma parse_build_embedded_newline:
  "parseLine (newCodeLine ([newline] @ '' x'' @ [newline]) True)
     = Inr ((newCodeLine [] True)\<lparr>leftSpace := [newline] @ '' '', code := ''x'', origCodeLength := 1\<rparr>)
   \<and> buildFullLine ((newCodeLine [] True)\<lparr>leftSpace := [newline] @ '' '', code := ''x'',
         origCodeLength := 1\<rparr>) = [newline] @ '' x''"
  by (simp add: parse_defs char_defs buildFullLine_def)

text \<open>
  Parsing leaves \<open>isContinued\<close> as the constructor set it, so the lines that
  \<open>identifyContinuations\<close> receives after the parse all have it false.
\<close>

lemma tail_isContinued:
  "isContinued (finish (freeChecks (freeComment (stripLeft cl)))) = isContinued cl"
  by (simp add: finish_def freeChecks_def freeContStep_def freeLabelStep_def freeComment_def
      stripLeft_def split: option.splits)

lemma parseLine_isContinued:
  assumes "parseLine cl = Inr r"
  shows "isContinued r = isContinued cl"
proof -
  have s: "isContinued (stripRight cl) = isContinued cl"
    by (simp add: stripRight_def split: option.splits)
  have f: "fixedColumns c = Inr c' \<Longrightarrow> isContinued c' = isContinued c" for c c'
    by (auto simp: fixedColumns_def index_def split: option.splits if_splits)
  show ?thesis
    using assms s
    by (auto simp: parseLine_def Let_def index_def tail_isContinued
        split: if_splits sum.splits dest!: f)
qed

lemma parseAll_isContinued:
  "parseAll (map (\<lambda>l. newCodeLine l ff) content) = Inr ls \<Longrightarrow> \<forall>cl \<in> set ls. \<not> isContinued cl"
proof (induction content arbitrary: ls)
  case Nil
  then show ?case by simp
next
  case (Cons l content)
  then obtain r rs where r: "parseLine (newCodeLine l ff) = Inr r"
      "parseAll (map (\<lambda>l. newCodeLine l ff) content) = Inr rs" "ls = r # rs"
    by (auto split: sum.splits)
  from parseLine_isContinued[OF r(1)] have "\<not> isContinued r" by simp
  with Cons.IH[OF r(2)] r(3) show ?case by simp
qed

end
